theory Spec2Isabelle
  imports Main "HOL-Library.Char_ord" "HOL-Library.List_Lexorder" "HOL-Library.Product_Lexorder"
begin

section \<open>Data model\<close>

text \<open>
  A MongoDB ObjectId is an opaque 12-byte value; the model uses a natural number.
  Fresh ids (\<^verbatim>\<open>new Category(...)\<close>, \<^verbatim>\<open>new Technique(...)\<close>) come from a counter kept in the
  database state.
\<close>

type_synonym objectId = nat

text \<open>\<^verbatim>\<open>models/User.js\<close>: role is one of 'admin', 'editor', 'viewer'. Only the id and
  the role of the authenticated caller (\<^verbatim>\<open>req.user\<close>) are read by the controllers.\<close>

datatype role = Viewer | Editor | Admin

record user =
  u_id :: objectId
  u_role :: role

text \<open>\<^verbatim>\<open>models/Category.js\<close>, the schema. Field names carry the prefix \<open>c_\<close>
  (\<open>m_\<close> for the metadata block), since record fields are global names. The two
  timestamps of a category, which no operation reads, are left out.\<close>

record metadata =
  m_tactics :: "string list"
  m_platforms :: "string list"
  m_killChainPhases :: "string list"

record category =
  c_id :: objectId
  c_name :: string
  c_slug :: string
  c_description :: string
  c_color :: string
  c_icon :: string
  c_parentCategory :: "objectId option"
  c_order :: int
  c_isActive :: bool
  c_metadata :: metadata
  c_createdBy :: objectId

text \<open>The responses of the controllers that are not a success. Each constructor is one
  \<^verbatim>\<open>res.status(...).json({error: ...})\<close> of the source; \<open>status_of\<close> gives its HTTP
  status. The error kinds of the specification are read off as follows:
  ValidationError = \<open>DatosIncompletos\<close>, \<open>ErrorDeValidacion\<close>, \<open>CategoriaNoEncontrada400\<close>,
  \<open>CategoriaPadreNoEncontrada\<close>; DuplicateError = \<open>MitreIdDuplicado\<close>;
  NotFoundError = \<open>CategoriaNoEncontrada\<close>, \<open>TecnicaNoEncontrada\<close>;
  PermissionError = \<open>SinPermisos\<close>, \<open>PermisosInsuficientes\<close>;
  CircularReferenceError = \<open>ReferenciaCircular\<close>;
  DependencyError = \<open>CategoriaConDependencias\<close>; UpstreamFailure = \<open>ErrorInterno\<close>.\<close>

datatype dependencies = Subcategories nat | Techniques nat

datatype error =
    DatosIncompletos
  | ErrorDeValidacion
  | CategoriaPadreNoEncontrada
  | CategoriaNoEncontrada
  | CategoriaNoEncontrada400
  | TecnicaNoEncontrada
  | SinPermisos
  | PermisosInsuficientes
  | ReferenciaCircular
  | CategoriaConDependencias dependencies
  | MitreIdDuplicado
  | ErrorInterno


section \<open>Strings\<close>

text \<open>JavaScript strings are modelled as \<open>string\<close>, one \<open>char\<close> per code unit (the
  Latin-1 range). \<open>toLowerCase\<close> maps A-Z to a-z; no character above 127 of that range
  lower-cases to an ASCII letter or digit, so the slug does not depend on how they map.\<close>

definition toLowerCase_char :: "char \<Rightarrow> char" where
  "toLowerCase_char c =
     (let n = (of_char c :: nat) in if 65 \<le> n \<and> n \<le> 90 then char_of (n + 32) else c)"

definition toLowerCase :: "string \<Rightarrow> string" where
  "toLowerCase s = map toLowerCase_char s"

text \<open>The character class \<^verbatim>\<open>[a-z0-9]\<close>.\<close>

definition is_slug_char :: "char \<Rightarrow> bool" where
  "is_slug_char c =
     (let n = (of_char c :: nat) in (97 \<le> n \<and> n \<le> 122) \<or> (48 \<le> n \<and> n \<le> 57))"

text \<open>\<^verbatim>\<open>.replace(/[^a-z0-9]+/g, '-')\<close>: every maximal run of characters outside the class
  becomes one hyphen.\<close>

function replace_runs :: "string \<Rightarrow> string" where
  "replace_runs [] = []"
| "replace_runs (c # cs) =
     (if is_slug_char c then c # replace_runs cs
      else CHR ''-'' # replace_runs (dropWhile (\<lambda>d. \<not> is_slug_char d) cs))"
  by pat_completeness auto
termination
  by (relation "measure length") (auto simp: le_imp_less_Suc length_dropWhile_le)

text \<open>\<^verbatim>\<open>.replace(/(^-|-$)+/g, '')\<close>: a match starts with a hyphen at index 0 or with the
  last character being a hyphen, so a hyphen at index 0 and a hyphen at the last index
  are removed, and nothing else.\<close>

definition trim_hyphens :: "string \<Rightarrow> string" where
  "trim_hyphens s =
     (let s1 = (case s of [] \<Rightarrow> [] | c # cs \<Rightarrow> if c = CHR ''-'' then cs else s)
      in if s1 \<noteq> [] \<and> last s1 = CHR ''-'' then butlast s1 else s1)"

definition baseSlug :: "string \<Rightarrow> string" where
  "baseSlug name = trim_hyphens (replace_runs (toLowerCase name))"

text \<open>\<^verbatim>\<open>String.prototype.trim\<close> on the modelled range: TAB, LF, VT, FF, CR, SPACE, NBSP.\<close>

definition is_space :: "char \<Rightarrow> bool" where
  "is_space c = ((of_char c :: nat) \<in> {9, 10, 11, 12, 13, 32, 160})"

definition trim :: "string \<Rightarrow> string" where
  "trim s = rev (dropWhile is_space (rev (dropWhile is_space s)))"

text \<open>A number in a template literal (\<^verbatim>\<open>`${baseSlug}-${counter}`\<close>) or in
  \<^verbatim>\<open>Array.prototype.join\<close>: the decimal digits of a non-negative integer.\<close>

definition digit_char :: "nat \<Rightarrow> char" where
  "digit_char d = char_of (48 + d)"

function string_of_nat :: "nat \<Rightarrow> string" where
  "string_of_nat n =
     (if n < 10 then [digit_char n] else string_of_nat (n div 10) @ [digit_char (n mod 10)])"
  by pat_completeness auto
termination
  by (relation "measure id") auto

declare string_of_nat.simps [simp del]


section \<open>The category collection\<close>

text \<open>\<^verbatim>\<open>Category.findById(id)\<close>.\<close>

definition findById :: "category list \<Rightarrow> objectId \<Rightarrow> category option" where
  "findById cats i = find (\<lambda>c. c_id c = i) cats"

text \<open>\<^verbatim>\<open>findOne({slug: slug, _id: {$ne: this._id}})\<close> as a truth value.\<close>

definition slug_taken :: "category list \<Rightarrow> objectId \<Rightarrow> string \<Rightarrow> bool" where
  "slug_taken cats self s = (\<exists>c \<in> set cats. c_slug c = s \<and> c_id c \<noteq> self)"

definition suffixed :: "string \<Rightarrow> nat \<Rightarrow> string" where
  "suffixed base k = base @ ''-'' @ string_of_nat k"

lemma string_of_nat_nonempty: "string_of_nat n \<noteq> []"
  by (subst string_of_nat.simps) simp

lemma digit_char_inj: "a < 10 \<Longrightarrow> b < 10 \<Longrightarrow> digit_char a = digit_char b \<Longrightarrow> a = b"
proof -
  assume a: "a < 10" and b: "b < 10" and e: "digit_char a = digit_char b"
  have "(of_char (digit_char a) :: nat) = of_char (digit_char b)"
    using e by simp
  moreover have "(of_char (digit_char a) :: nat) = 48 + a"
    using a by (simp add: digit_char_def)
  moreover have "(of_char (digit_char b) :: nat) = 48 + b"
    using b by (simp add: digit_char_def)
  ultimately show "a = b" by simp
qed

lemma string_of_nat_inj: "string_of_nat m = string_of_nat n \<Longrightarrow> m = n"
proof (induction m arbitrary: n rule: string_of_nat.induct)
  case (1 m)
  show ?case
  proof (cases "m < 10")
    case small_m: True
    show ?thesis
    proof (cases "n < 10")
      case True
      with small_m "1.prems" show ?thesis
        by (simp add: string_of_nat.simps [of m] string_of_nat.simps [of n] digit_char_inj)
    next
      case False
      with small_m "1.prems" string_of_nat_nonempty [of "n div 10"] show ?thesis
        by (simp add: string_of_nat.simps [of m] string_of_nat.simps [of n] Cons_eq_append_conv)
    qed
  next
    case big_m: False
    show ?thesis
    proof (cases "n < 10")
      case True
      with big_m "1.prems" string_of_nat_nonempty [of "m div 10"] show ?thesis
        by (simp add: string_of_nat.simps [of m] string_of_nat.simps [of n] append_eq_Cons_conv)
    next
      case False
      with big_m "1.prems" have
        e: "string_of_nat (m div 10) = string_of_nat (n div 10)"
        and d: "digit_char (m mod 10) = digit_char (n mod 10)"
        by (simp_all add: string_of_nat.simps [of m] string_of_nat.simps [of n])
      from "1.IH" [OF big_m e] have "m div 10 = n div 10" .
      moreover from d have "m mod 10 = n mod 10"
        by (intro digit_char_inj) simp_all
      ultimately show ?thesis
        by (metis div_mult_mod_eq)
    qed
  qed
qed

lemma suffixed_inj: "suffixed base j = suffixed base k \<Longrightarrow> j = k"
  by (simp add: suffixed_def string_of_nat_inj)

text \<open>The probing loop of the pre-save hook:
  \<^verbatim>\<open>while (await findOne({slug, _id: {$ne: this._id}})) { slug = `${baseSlug}-${counter}`; counter++; }\<close>\<close>

lemma finite_taken_suffixes: "finite {k. slug_taken cats self (suffixed base k)}"
proof -
  have "{k. slug_taken cats self (suffixed base k)} \<subseteq> suffixed base -` (c_slug ` set cats)"
  proof
    fix k
    assume "k \<in> {k. slug_taken cats self (suffixed base k)}"
    then obtain c where "c \<in> set cats" and "c_slug c = suffixed base k"
      by (auto simp: slug_taken_def)
    then have "suffixed base k \<in> c_slug ` set cats"
      by (simp add: rev_image_eqI)
    then show "k \<in> suffixed base -` (c_slug ` set cats)"
      by simp
  qed
  moreover have "finite (suffixed base -` (c_slug ` set cats))"
    by (intro finite_vimageI) (auto simp: inj_on_def dest: suffixed_inj)
  ultimately show ?thesis by (rule finite_subset)
qed

definition probe_measure :: "category list \<times> objectId \<times> string \<times> string \<times> nat \<Rightarrow> nat" where
  "probe_measure = (\<lambda>(cats, self, base, slug, counter).
     2 * card {k. counter \<le> k \<and> slug_taken cats self (suffixed base k)}
       + (if slug_taken cats self slug then 1 else 0))"

lemma probe_step:
  assumes taken: "slug_taken cats self slug"
  shows "probe_measure (cats, self, base, suffixed base counter, Suc counter) < probe_measure (cats, self, base, slug, counter)"
proof -
  let ?A = "{k. counter \<le> k \<and> slug_taken cats self (suffixed base k)}"
  let ?B = "{k. Suc counter \<le> k \<and> slug_taken cats self (suffixed base k)}"
  have fin: "finite ?A"
    by (rule finite_subset [OF _ finite_taken_suffixes [of cats self base]]) auto
  have sub: "?B \<subseteq> ?A" by auto
  have "2 * card ?B + (if slug_taken cats self (suffixed base counter) then 1 else 0)
          < 2 * card ?A + 1"
  proof (cases "slug_taken cats self (suffixed base counter)")
    case True
    then have "counter \<in> ?A" "counter \<notin> ?B" by auto
    with sub have "?B \<subset> ?A" by blast
    with fin have "card ?B < card ?A" by (rule psubset_card_mono)
    with True show ?thesis by simp
  next
    case False
    from fin sub have "card ?B \<le> card ?A" by (rule card_mono)
    with False show ?thesis by simp
  qed
  with taken show ?thesis
    unfolding probe_measure_def split_conv by (simp only: if_True)
qed

function probe_slug :: "category list \<Rightarrow> objectId \<Rightarrow> string \<Rightarrow> string \<Rightarrow> nat \<Rightarrow> string" where
  "probe_slug cats self base slug counter =
     (if slug_taken cats self slug
      then probe_slug cats self base (suffixed base counter) (Suc counter)
      else slug)"
  by pat_completeness auto
termination
  by (relation "measure probe_measure") (simp_all only: wf_measure in_measure probe_step)

declare probe_slug.simps [simp del]

text \<open>The first pre-save hook, run when \<^verbatim>\<open>this.isModified('name')\<close>.\<close>

definition generateSlug :: "category list \<Rightarrow> objectId \<Rightarrow> string \<Rightarrow> string" where
  "generateSlug cats self name = probe_slug cats self (baseSlug name) (baseSlug name) 1"

section \<open>Cycle detection and paths\<close>

text \<open>The loop of \<^verbatim>\<open>validateParent\<close>: \<open>current\<close> is the document the walk stands on,
  \<open>visited\<close> the JavaScript \<^verbatim>\<open>Set\<close>. The result \<open>False\<close> is the thrown
  \<^verbatim>\<open>Error('No se puede crear una referencia circular en las categorias')\<close>, \<open>True\<close> is
  \<^verbatim>\<open>return true\<close>.\<close>

definition parent_doc :: "category list \<Rightarrow> category \<Rightarrow> category option" where
  "parent_doc cats cur =
     (case c_parentCategory cur of Some p \<Rightarrow> findById cats p | None \<Rightarrow> None)"

definition walk_measure :: "category list \<times> category option \<times> objectId set \<Rightarrow> nat" where
  "walk_measure = (\<lambda>(cats, current, visited).
     2 * card (c_id ` set cats - visited)
       + (case current of None \<Rightarrow> 0
          | Some cur \<Rightarrow> if c_id cur \<in> c_id ` set cats then 1 else 2))"

lemma findById_Some: "findById cats i = Some c \<Longrightarrow> c \<in> set cats \<and> c_id c = i"
  by (auto simp: findById_def find_Some_iff)

lemma findById_None: "findById cats i = None \<longleftrightarrow> i \<notin> c_id ` set cats"
  by (auto simp: findById_def find_None_iff)

lemma parent_doc_Some: "parent_doc cats cur = Some d \<Longrightarrow> d \<in> set cats \<and> c_parentCategory cur = Some (c_id d)"
  by (auto simp: parent_doc_def split: option.splits dest: findById_Some)

lemma walk_step:
  assumes fresh: "c_id cur \<notin> visited"
  shows "walk_measure (cats, parent_doc cats cur, insert (c_id cur) visited)
           < walk_measure (cats, Some cur, visited)"
proof -
  let ?ids = "c_id ` set cats"
  have next_le: "(case parent_doc cats cur of None \<Rightarrow> 0
          | Some d \<Rightarrow> if c_id d \<in> ?ids then 1 else 2) \<le> (1::nat)"
    by (auto split: option.splits dest: parent_doc_Some)
  show ?thesis
  proof (cases "c_id cur \<in> ?ids")
    case True
    have "?ids - insert (c_id cur) visited \<subset> ?ids - visited"
      using True fresh by blast
    then have "card (?ids - insert (c_id cur) visited) < card (?ids - visited)"
      by (intro psubset_card_mono) simp_all
    with next_le True show ?thesis
      by (simp add: walk_measure_def)
  next
    case False
    then have "?ids - insert (c_id cur) visited = ?ids - visited"
      by blast
    with next_le False show ?thesis
      by (simp add: walk_measure_def)
  qed
qed

function validateParent_loop :: "category list \<Rightarrow> category option \<Rightarrow> objectId set \<Rightarrow> bool" where
  "validateParent_loop cats current visited =
     (case current of
        None \<Rightarrow> True
      | Some cur \<Rightarrow>
          if c_id cur \<in> visited then False
          else validateParent_loop cats (parent_doc cats cur) (insert (c_id cur) visited))"
  by pat_completeness auto
termination
  by (relation "measure walk_measure") (simp_all add: walk_step)

declare validateParent_loop.simps [simp del]

definition validateParent :: "category list \<Rightarrow> category \<Rightarrow> bool" where
  "validateParent cats this =
     (case c_parentCategory this of
        None \<Rightarrow> True
      | Some p \<Rightarrow> validateParent_loop cats (findById cats p) {c_id this})"



section \<open>Saving a category\<close>

text \<open>The validators of the schema: \<open>required\<close> and \<open>maxlength\<close> on name and
  description, \<open>match\<close> on color (Mongoose skips \<open>match\<close> on an empty string). Of the
  string setters of the schema, \<open>trim\<close> on \<open>icon\<close> is applied where a controller assigns the
  caller's string. The name reaches the document already trimmed by the controllers, and a
  generated slug has only characters of \<^verbatim>\<open>[a-z0-9-]\<close>, so the setters of these two paths
  change nothing.\<close>

definition is_hex :: "char \<Rightarrow> bool" where
  "is_hex c = (let n = (of_char c :: nat) in
     (48 \<le> n \<and> n \<le> 57) \<or> (65 \<le> n \<and> n \<le> 70) \<or> (97 \<le> n \<and> n \<le> 102))"

definition valid_color :: "string \<Rightarrow> bool" where
  "valid_color s =
     (case s of
        [] \<Rightarrow> True
      | c # hs \<Rightarrow> c = CHR ''#'' \<and> (length hs = 6 \<or> length hs = 3) \<and> list_all is_hex hs)"

definition validate_category :: "category \<Rightarrow> bool" where
  "validate_category c =
     (c_name c \<noteq> [] \<and> length (c_name c) \<le> 100
      \<and> c_description c \<noteq> [] \<and> length (c_description c) \<le> 500
      \<and> valid_color (c_color c))"

datatype save_error = ValidationFailed | CircularReference | DuplicateKey

text \<open>\<^verbatim>\<open>doc.save()\<close> of a category. \<open>old\<close> is the stored document (\<open>None\<close> for a new one):
  a path is modified when the document is new or its value differs from the stored one.
  Validation runs first, then the two pre-save hooks in the order they are registered
  (slug, then parent), then the write.\<close>

definition put_category :: "category list \<Rightarrow> category \<Rightarrow> category list" where
  "put_category cats doc =
     (if c_id doc \<in> c_id ` set cats
      then map (\<lambda>c. if c_id c = c_id doc then doc else c) cats
      else cats @ [doc])"

definition save_category :: "category list \<Rightarrow> category option \<Rightarrow> category \<Rightarrow> save_error + category" where
  "save_category cats old doc =
     (if \<not> validate_category doc then Inl ValidationFailed
      else
        let name_modified = (case old of None \<Rightarrow> True | Some c \<Rightarrow> c_name c \<noteq> c_name doc);
            parent_modified =
              (case old of None \<Rightarrow> True | Some c \<Rightarrow> c_parentCategory c \<noteq> c_parentCategory doc);
            doc1 = (if name_modified
                    then doc\<lparr>c_slug := generateSlug cats (c_id doc) (c_name doc)\<rparr>
                    else doc)
        in if parent_modified \<and> \<not> validateParent cats doc1 then Inl CircularReference
           else Inr doc1)"

section \<open>Techniques and the database state\<close>

text \<open>The Technique schema (the second model file of \<^verbatim>\<open>src/unnamed/part_003\<close>), fields
  prefixed \<open>t_\<close>. \<open>None\<close> is \<^verbatim>\<open>undefined\<close> or \<^verbatim>\<open>null\<close>. The timestamps kept by Mongoose
  (\<^verbatim>\<open>timestamps: true\<close>) are read from a clock handed to each operation.\<close>

record datasource =
  ds_name :: string
  ds_description :: string

record mitigation =
  mit_description :: string
  mit_techniques :: "string list"

record query =
  q_platform :: string
  q_query :: string
  q_description :: string

record detection =
  det_description :: string
  det_queries :: "query list"

record reference =
  ref_name :: string
  ref_url :: string
  ref_description :: string

record killChainPhase =
  kc_killChainName :: string
  kc_phaseName :: string

record revision =
  r_version :: string
  r_changes :: string
  r_changedBy :: "objectId option"
  r_changedAt :: nat

datatype riskLevel = Low | Medium | High | Critical

datatype status = Draft | Review | Approved | Deprecated

record technique =
  t_id :: objectId
  t_name :: string
  t_mitreid :: "string option"
  t_description :: string
  t_category :: "objectId option"
  t_fileLocation :: "string option"
  t_image :: "string option"
  t_tags :: "string list"
  t_platforms :: "string list"
  t_datasources :: "datasource list"
  t_mitigation :: mitigation
  t_detection :: detection
  t_references :: "reference list"
  t_tactics :: "string list"
  t_killChainPhases :: "killChainPhase list"
  t_revisionHistory :: "revision list"
  t_isActive :: bool
  t_version :: string
  t_createdBy :: "objectId option"
  t_lastModifiedBy :: "objectId option"
  t_iso27001Reference :: "string option"
  t_riskLevel :: riskLevel
  t_status :: status
  t_createdAt :: nat
  t_updatedAt :: nat

text \<open>The persisted state: the two collections, the files under \<^verbatim>\<open>uploads/\<close>, and the
  source of fresh ObjectIds.\<close>

record db =
  categories :: "category list"
  techniques :: "technique list"
  files :: "string set"
  nextId :: objectId

section \<open>Category controllers\<close>

text \<open>\<^verbatim>\<open>req.body\<close> of the category routes. \<open>None\<close> is an absent key (\<^verbatim>\<open>undefined\<close>). For
  \<open>b_parentCategory\<close>, \<open>Some None\<close> is \<^verbatim>\<open>null\<close> or \<^verbatim>\<open>''\<close> and \<open>Some (Some p)\<close> a well-formed
  id.\<close>

record metadata_body =
  mb_tactics :: "string list option"
  mb_platforms :: "string list option"
  mb_killChainPhases :: "string list option"

record category_body =
  b_name :: "string option"
  b_description :: "string option"
  b_color :: "string option"
  b_icon :: "string option"
  b_parentCategory :: "objectId option option"
  b_order :: "int option"
  b_metadata :: "metadata_body option"
  b_isActive :: "bool option"

text \<open>\<^verbatim>\<open>x || dflt\<close> on a string: the default replaces \<^verbatim>\<open>undefined\<close> and \<^verbatim>\<open>''\<close>.\<close>

text \<open>\<^verbatim>\<open>!x\<close> on a string that may be absent.\<close>

definition falsy :: "string option \<Rightarrow> bool" where
  "falsy x = (case x of None \<Rightarrow> True | Some v \<Rightarrow> v = [])"

definition or_default :: "string option \<Rightarrow> string \<Rightarrow> string" where
  "or_default x dflt = (case x of None \<Rightarrow> dflt | Some v \<Rightarrow> if v = [] then dflt else v)"

text \<open>\<^verbatim>\<open>{ ...category.metadata, ...metadata }\<close>: a key of the body replaces the stored one.\<close>

definition merge_metadata :: "metadata \<Rightarrow> metadata_body \<Rightarrow> metadata" where
  "merge_metadata m b =
     \<lparr>m_tactics = (case mb_tactics b of Some v \<Rightarrow> v | None \<Rightarrow> m_tactics m),
      m_platforms = (case mb_platforms b of Some v \<Rightarrow> v | None \<Rightarrow> m_platforms m),
      m_killChainPhases = (case mb_killChainPhases b of Some v \<Rightarrow> v | None \<Rightarrow> m_killChainPhases m)\<rparr>"

definition empty_metadata :: metadata where
  "empty_metadata = \<lparr>m_tactics = [], m_platforms = [], m_killChainPhases = []\<rparr>"

text \<open>\<^verbatim>\<open>parentCategory || null\<close> (line 163) and the object \<^verbatim>\<open>categoryData\<close> (lines 158-167),
  with the id and the schema defaults that \<^verbatim>\<open>new Category(categoryData)\<close> adds and with
  the setter \<open>trim\<close> of \<open>icon\<close>.\<close>

definition body_parent :: "category_body \<Rightarrow> objectId option" where
  "body_parent body = (case b_parentCategory body of Some (Some p) \<Rightarrow> Some p | _ \<Rightarrow> None)"

definition categoryData :: "objectId \<Rightarrow> user \<Rightarrow> category_body \<Rightarrow> category" where
  "categoryData new_id actor body =
     \<lparr>c_id = new_id,
      c_name = trim (or_default (b_name body) []),
      c_slug = [],
      c_description = trim (or_default (b_description body) []),
      c_color = or_default (b_color body) ''#3498db'',
      c_icon = trim (or_default (b_icon body) ''folder''),
      c_parentCategory = body_parent body,
      c_order = (case b_order body of Some n \<Rightarrow> n | None \<Rightarrow> 0),
      c_isActive = True,
      c_metadata =
        (case b_metadata body of Some m \<Rightarrow> merge_metadata empty_metadata m
         | None \<Rightarrow> empty_metadata),
      c_createdBy = u_id actor\<rparr>"

text \<open>\<^verbatim>\<open>createCategory\<close>. A circular-reference error thrown by the save has no branch of its
  own in the \<^verbatim>\<open>catch\<close> and ends as 500.\<close>

definition createCategory :: "db \<Rightarrow> user \<Rightarrow> category_body \<Rightarrow> (error + category) \<times> db" where
  "createCategory s actor body =
     (if falsy (b_name body) \<or> falsy (b_description body)
      then (Inl DatosIncompletos, s)
      else if (case body_parent body of
                 Some p \<Rightarrow> findById (categories s) p = None | None \<Rightarrow> False)
      then (Inl CategoriaPadreNoEncontrada, s)
      else
        (case save_category (categories s) None (categoryData (nextId s) actor body) of
           Inl ValidationFailed \<Rightarrow> (Inl ErrorDeValidacion, s)
         | Inl CircularReference \<Rightarrow> (Inl ErrorInterno, s)
         | Inl DuplicateKey \<Rightarrow> (Inl ErrorInterno, s)
         | Inr doc \<Rightarrow>
             (Inr doc, s\<lparr>categories := put_category (categories s) doc,
                         nextId := Suc (nextId s)\<rparr>)))"

text \<open>Lines 231-240 of \<^verbatim>\<open>updateCategory\<close>: the fields the body supplies are assigned, the
  icon through its setter \<open>trim\<close>; \<open>isActive\<close> only when the caller is an admin.\<close>

definition assign_fields :: "user \<Rightarrow> category_body \<Rightarrow> category \<Rightarrow> category" where
  "assign_fields actor body category =
     category
       \<lparr>c_name := (case b_name body of Some v \<Rightarrow> trim v | None \<Rightarrow> c_name category),
        c_description :=
          (case b_description body of Some v \<Rightarrow> trim v | None \<Rightarrow> c_description category),
        c_color := (case b_color body of Some v \<Rightarrow> v | None \<Rightarrow> c_color category),
        c_icon := (case b_icon body of Some v \<Rightarrow> trim v | None \<Rightarrow> c_icon category),
        c_order := (case b_order body of Some v \<Rightarrow> v | None \<Rightarrow> c_order category),
        c_metadata :=
          (case b_metadata body of Some m \<Rightarrow> merge_metadata (c_metadata category) m
           | None \<Rightarrow> c_metadata category),
        c_isActive :=
          (case b_isActive body of
             Some v \<Rightarrow> if u_role actor = Admin then v else c_isActive category
           | None \<Rightarrow> c_isActive category)\<rparr>"

text \<open>Lines 242-257: the parent of the body; a parent that is not found ends the request.\<close>

definition assign_parent :: "category list \<Rightarrow> category_body \<Rightarrow> category \<Rightarrow> error + category" where
  "assign_parent cats body category =
     (case b_parentCategory body of
        None \<Rightarrow> Inr category
      | Some None \<Rightarrow> Inr (category\<lparr>c_parentCategory := None\<rparr>)
      | Some (Some p) \<Rightarrow>
          if findById cats p = None then Inl CategoriaPadreNoEncontrada
          else Inr (category\<lparr>c_parentCategory := Some p\<rparr>))"

definition updateCategory :: "db \<Rightarrow> user \<Rightarrow> objectId \<Rightarrow> category_body \<Rightarrow> (error + category) \<times> db" where
  "updateCategory s actor i body =
     (case findById (categories s) i of
        None \<Rightarrow> (Inl CategoriaNoEncontrada, s)
      | Some category \<Rightarrow>
          if u_role actor \<noteq> Admin \<and> c_createdBy category \<noteq> u_id actor
          then (Inl SinPermisos, s)
          else
            (case assign_parent (categories s) body (assign_fields actor body category) of
               Inl e \<Rightarrow> (Inl e, s)
             | Inr edited \<Rightarrow>
                 (case save_category (categories s) (Some category) edited of
                    Inl CircularReference \<Rightarrow> (Inl ReferenciaCircular, s)
                  | Inl ValidationFailed \<Rightarrow> (Inl ErrorDeValidacion, s)
                  | Inl DuplicateKey \<Rightarrow> (Inl ErrorInterno, s)
                  | Inr doc \<Rightarrow> (Inr doc, s\<lparr>categories := put_category (categories s) doc\<rparr>))))"

definition deleteCategory :: "db \<Rightarrow> user \<Rightarrow> objectId \<Rightarrow> (error + category) \<times> db" where
  "deleteCategory s actor i =
     (case findById (categories s) i of
        None \<Rightarrow> (Inl CategoriaNoEncontrada, s)
      | Some category \<Rightarrow>
          if u_role actor \<noteq> Admin then (Inl SinPermisos, s)
          else
            let subcategories = length (filter (\<lambda>c. c_parentCategory c = Some i) (categories s));
                techniques = length (filter (\<lambda>t. t_category t = Some i) (techniques s))
            in if subcategories > 0
               then (Inl (CategoriaConDependencias (Subcategories subcategories)), s)
               else if techniques > 0
               then (Inl (CategoriaConDependencias (Techniques techniques)), s)
               else (Inr category, s\<lparr>categories := filter (\<lambda>c. c_id c \<noteq> i) (categories s)\<rparr>))"

section \<open>The hierarchy\<close>

text \<open>\<^verbatim>\<open>getHierarchy\<close> builds a JavaScript \<^verbatim>\<open>Map\<close> from id to a node object and pushes
  references to those objects into \<^verbatim>\<open>children\<close> arrays and into \<^verbatim>\<open>roots\<close>. The model keeps
  the map as the store of node objects and writes a reference as the node's id.
  \<open>n_subcategories\<close> is the populated virtual of the schema: the documents whose
  \<open>parentCategory\<close> is the node, active or not.\<close>

record node =
  n_category :: category
  n_subcategories :: "category list"
  n_children :: "objectId list"

record hierarchy =
  h_roots :: "objectId list"
  h_nodes :: "objectId \<rightharpoonup> node"

definition active_sorted :: "category list \<Rightarrow> category list" where
  "active_sorted cats = sort_key (\<lambda>c. (c_order c, c_name c)) (filter c_isActive cats)"

definition first_pass :: "category list \<Rightarrow> (objectId \<rightharpoonup> node) \<Rightarrow> category \<Rightarrow> (objectId \<rightharpoonup> node)" where
  "first_pass cats m cat =
     m(c_id cat \<mapsto>
        \<lparr>n_category = cat,
         n_subcategories = filter (\<lambda>d. c_parentCategory d = Some (c_id cat)) cats,
         n_children = []\<rparr>)"

definition second_pass :: "hierarchy \<Rightarrow> category \<Rightarrow> hierarchy" where
  "second_pass h cat =
     (case c_parentCategory cat of
        Some p \<Rightarrow>
          (case h_nodes h p of
             Some parent \<Rightarrow>
               h\<lparr>h_nodes := (h_nodes h)(p \<mapsto> parent\<lparr>n_children := n_children parent @ [c_id cat]\<rparr>)\<rparr>
           | None \<Rightarrow> h)
      | None \<Rightarrow> h\<lparr>h_roots := h_roots h @ [c_id cat]\<rparr>)"

definition getHierarchy :: "category list \<Rightarrow> hierarchy" where
  "getHierarchy cats =
     (let found = active_sorted cats;
          categoryMap = foldl (first_pass cats) Map.empty found
      in foldl second_pass \<lparr>h_roots = [], h_nodes = categoryMap\<rparr> found)"

text \<open>The nodes of the forest that is returned: the roots and everything below them.\<close>

inductive_set forest_ids :: "hierarchy \<Rightarrow> objectId set" for h :: hierarchy where
  root: "i \<in> set (h_roots h) \<Longrightarrow> i \<in> forest_ids h"
| child: "p \<in> forest_ids h \<Longrightarrow> h_nodes h p = Some n \<Longrightarrow> i \<in> set (n_children n) \<Longrightarrow> i \<in> forest_ids h"

section \<open>Technique model methods\<close>

text \<open>\<^verbatim>\<open>String.prototype.split(sep)\<close> for a one-character separator: the result is never
  empty.\<close>

fun split :: "char \<Rightarrow> string \<Rightarrow> string list" where
  "split sep [] = [[]]"
| "split sep (c # cs) =
     (if c = sep then [] # split sep cs
      else (case split sep cs of x # xs \<Rightarrow> (c # x) # xs | [] \<Rightarrow> [[c]]))"







text \<open>The validators of the Technique schema (\<open>required\<close> and \<open>maxlength\<close> on name and
  description) and the unique sparse index on \<open>mitreid\<close>, as \<^verbatim>\<open>save()\<close> meets them. \<open>old\<close> is
  the stored document, \<open>None\<close> for a new one. The pre-save hook generates no reference code
  (no caller sets \<^verbatim>\<open>generateId\<close>) and sets no modifier (no caller sets \<^verbatim>\<open>modifiedBy\<close>).\<close>

definition validate_technique :: "technique \<Rightarrow> bool" where
  "validate_technique t =
     (t_name t \<noteq> [] \<and> length (t_name t) \<le> 500
      \<and> t_description t \<noteq> [] \<and> length (t_description t) \<le> 5000)"

definition mitreid_clash :: "technique list \<Rightarrow> technique \<Rightarrow> bool" where
  "mitreid_clash techs doc =
     (case t_mitreid doc of
        None \<Rightarrow> False
      | Some m \<Rightarrow> \<exists>t \<in> set techs. t_mitreid t = Some m \<and> t_id t \<noteq> t_id doc)"

definition save_technique :: "technique list \<Rightarrow> technique option \<Rightarrow> technique \<Rightarrow> save_error + technique" where
  "save_technique techs old doc =
     (if \<not> validate_technique doc then Inl ValidationFailed
      else if (case old of None \<Rightarrow> True | Some t \<Rightarrow> t_mitreid t \<noteq> t_mitreid doc)
              \<and> mitreid_clash techs doc
      then Inl DuplicateKey
      else Inr doc)"

definition put_technique :: "technique list \<Rightarrow> technique \<Rightarrow> technique list" where
  "put_technique techs doc =
     (if t_id doc \<in> t_id ` set techs
      then map (\<lambda>t. if t_id t = t_id doc then doc else t) techs
      else techs @ [doc])"

definition findTechniqueById :: "technique list \<Rightarrow> objectId \<Rightarrow> technique option" where
  "findTechniqueById techs i = find (\<lambda>t. t_id t = i) techs"

text \<open>\<^verbatim>\<open>duplicate(userId)\<close> (lines 497-517): the object handed to the constructor, with the id,
  the timestamps and the schema defaults of the paths it does not set (\<open>mitreid\<close>,
  \<open>fileLocation\<close>, \<open>image\<close>, \<open>revisionHistory\<close>, \<open>isActive\<close>, \<open>version\<close>, \<open>lastModifiedBy\<close>).\<close>

definition duplicated :: "technique \<Rightarrow> objectId \<Rightarrow> objectId \<Rightarrow> nat \<Rightarrow> technique" where
  "duplicated this new_id userId now =
     \<lparr>t_id = new_id,
      t_name = t_name this @ '' (Copia)'',
      t_mitreid = None,
      t_description = t_description this,
      t_category = t_category this,
      t_fileLocation = None,
      t_image = None,
      t_tags = t_tags this,
      t_platforms = t_platforms this,
      t_datasources = t_datasources this,
      t_mitigation = t_mitigation this,
      t_detection = t_detection this,
      t_references = t_references this,
      t_tactics = t_tactics this,
      t_killChainPhases = t_killChainPhases this,
      t_revisionHistory = [],
      t_isActive = True,
      t_version = ''1.0'',
      t_createdBy = Some userId,
      t_lastModifiedBy = None,
      t_iso27001Reference = t_iso27001Reference this,
      t_riskLevel = t_riskLevel this,
      t_status = Draft,
      t_createdAt = now,
      t_updatedAt = now\<rparr>"

definition duplicate :: "technique list \<Rightarrow> technique \<Rightarrow> objectId \<Rightarrow> objectId \<Rightarrow> nat \<Rightarrow> save_error + technique" where
  "duplicate techs this new_id userId now =
     save_technique techs None (duplicated this new_id userId now)"

section \<open>Technique controllers\<close>



text \<open>What \<^verbatim>\<open>uploadMultiple\<close> stored for a request: the paths of the \<open>image\<close> part, the
  \<open>document\<close> part and the \<open>files\<close> parts. Under \<^verbatim>\<open>.fields(...)\<close> every entry of
  \<^verbatim>\<open>req.files\<close>, and so of \<^verbatim>\<open>req.processedFiles\<close>, is an array.\<close>

record uploads =
  up_image :: "string option"
  up_document :: "string option"
  up_files :: "string list"











text \<open>\<^verbatim>\<open>duplicateTechnique\<close> (lines 811-840): an error thrown by \<^verbatim>\<open>duplicate\<close> is answered
  500.\<close>

definition duplicateTechnique :: "db \<Rightarrow> user \<Rightarrow> objectId \<Rightarrow> nat \<Rightarrow> (error + technique) \<times> db" where
  "duplicateTechnique s actor i now =
     (case findTechniqueById (techniques s) i of
        None \<Rightarrow> (Inl TecnicaNoEncontrada, s)
      | Some originalTechnique \<Rightarrow>
          (case duplicate (techniques s) originalTechnique (nextId s) (u_id actor) now of
             Inl e \<Rightarrow> (Inl ErrorInterno, s)
           | Inr duplicatedTechnique \<Rightarrow>
               (Inr duplicatedTechnique,
                s\<lparr>techniques := put_technique (techniques s) duplicatedTechnique,
                  nextId := Suc (nextId s)\<rparr>)))"














section \<open>Example data\<close>

text \<open>Documents with the schema defaults, used where a statement is evaluated on a concrete
  database.\<close>

definition mk_category :: "objectId \<Rightarrow> string \<Rightarrow> objectId option \<Rightarrow> bool \<Rightarrow> objectId \<Rightarrow> category" where
  "mk_category i name parent active owner =
     \<lparr>c_id = i, c_name = name, c_slug = baseSlug name, c_description = ''About '' @ name,
      c_color = ''#3498db'', c_icon = ''folder'', c_parentCategory = parent, c_order = 0,
      c_isActive = active, c_metadata = empty_metadata, c_createdBy = owner\<rparr>"

definition mk_technique :: "objectId \<Rightarrow> string \<Rightarrow> string option \<Rightarrow> objectId option \<Rightarrow> objectId \<Rightarrow> technique" where
  "mk_technique i name mitreid cat owner =
     \<lparr>t_id = i, t_name = name, t_mitreid = mitreid, t_description = ''About '' @ name,
      t_category = cat, t_fileLocation = None, t_image = None, t_tags = [], t_platforms = [],
      t_datasources = [], t_mitigation = \<lparr>mit_description = [], mit_techniques = []\<rparr>,
      t_detection = \<lparr>det_description = [], det_queries = []\<rparr>, t_references = [],
      t_tactics = [], t_killChainPhases = [], t_revisionHistory = [], t_isActive = True,
      t_version = ''1.0'', t_createdBy = Some owner, t_lastModifiedBy = None,
      t_iso27001Reference = None, t_riskLevel = Medium, t_status = Draft,
      t_createdAt = 0, t_updatedAt = 0\<rparr>"

definition ex_orphans :: "category list" where
  "ex_orphans =
     [mk_category 1 ''Initial Access'' None True 7,
      mk_category 2 ''Legacy'' None False 7,
      mk_category 3 ''Phishing'' (Some 2) True 7]"

definition ex_db :: db where
  "ex_db =
     \<lparr>categories = [mk_category 1 ''Initial Access'' None True 7],
      techniques = [mk_technique 2 ''Phishing'' (Some ''T1566'') (Some 1) 7],
      files = {},
      nextId = 3\<rparr>"

definition ex_editor :: user where
  "ex_editor = \<lparr>u_id = 7, u_role = Editor\<rparr>"

definition ex_patch :: category_body where
  "ex_patch =
     \<lparr>b_name = None, b_description = Some ''Entry vectors'', b_color = None, b_icon = None,
      b_parentCategory = None, b_order = Some 5, b_metadata = None, b_isActive = Some False\<rparr>"

section \<open>Deleting a category that has dependents\<close>

text \<open>
  Claim C5. \<^verbatim>\<open>deleteCategory\<close>, called by an admin on a category that exists and has at
  least one child category or at least one technique referencing it, answers
  400 \<open>CategoriaConDependencias\<close> with the count of the dependency that blocks (the number of
  subcategories when there is one, otherwise the number of techniques), and the database it
  leaves is the database it was given.
\<close>

theorem deleteCategory_blocked:
  assumes "findById (categories s) i = Some category"
    and "u_role actor = Admin"
    and "(\<exists>c \<in> set (categories s). c_parentCategory c = Some i)
         \<or> (\<exists>t \<in> set (techniques s). t_category t = Some i)"
  shows "deleteCategory s actor i =
           (Inl (CategoriaConDependencias
              (if \<exists>c \<in> set (categories s). c_parentCategory c = Some i
               then Subcategories (length (filter (\<lambda>c. c_parentCategory c = Some i) (categories s)))
               else Techniques (length (filter (\<lambda>t. t_category t = Some i) (techniques s))))), s)"
  using assms
  by (auto simp: deleteCategory_def Let_def filter_empty_conv)

theorem deleteCategory_blocked_witness:
  "findById (categories ex_db) 1 = Some (mk_category 1 ''Initial Access'' None True 7)
   \<and> u_role \<lparr>u_id = 9, u_role = Admin\<rparr> = Admin
   \<and> (\<exists>t \<in> set (techniques ex_db). t_category t = Some 1)
   \<and> deleteCategory ex_db \<lparr>u_id = 9, u_role = Admin\<rparr> 1
        = (Inl (CategoriaConDependencias (Techniques 1)), ex_db)"
  using deleteCategory_blocked [of ex_db 1 "mk_category 1 ''Initial Access'' None True 7"
      "\<lparr>u_id = 9, u_role = Admin\<rparr>"]
  by (simp add: ex_db_def mk_category_def mk_technique_def findById_def)

section \<open>The hierarchy omits active categories below an inactive or missing parent\<close>

lemma first_pass_nodes:
  "foldl (first_pass cats) m xs k = Some n \<Longrightarrow>
     m k = Some n \<or>
     (k \<in> c_id ` set xs \<and> n_children n = []
      \<and> n_subcategories n = filter (\<lambda>d. c_parentCategory d = Some k) cats)"
proof (induction xs arbitrary: m)
  case Nil
  then show ?case by simp
next
  case (Cons x xs)
  from Cons.IH [OF Cons.prems [simplified]] show ?case
    by (auto simp: first_pass_def split: if_splits)
qed

lemma second_pass_roots:
  "i \<in> set (h_roots (foldl second_pass h xs)) \<Longrightarrow>
     i \<in> set (h_roots h) \<or> (\<exists>x \<in> set xs. c_id x = i \<and> c_parentCategory x = None)"
proof (induction xs arbitrary: h)
  case Nil
  then show ?case by simp
next
  case (Cons x xs)
  from Cons.IH [OF Cons.prems [simplified]] show ?case
    by (auto simp: second_pass_def split: option.splits)
qed

lemma second_pass_nodes:
  "h_nodes (foldl second_pass h xs) k = Some n \<Longrightarrow>
     \<exists>n0. h_nodes h k = Some n0 \<and> n_subcategories n = n_subcategories n0
       \<and> (\<forall>i \<in> set (n_children n). i \<in> set (n_children n0)
             \<or> (\<exists>x \<in> set xs. c_id x = i \<and> c_parentCategory x = Some k))"
proof (induction xs arbitrary: h)
  case Nil
  then show ?case by simp
next
  case (Cons x xs)
  from Cons.IH [OF Cons.prems [simplified]] show ?case
    by (auto simp: second_pass_def split: option.splits if_splits)
qed

lemma getHierarchy_roots:
  assumes "i \<in> set (h_roots (getHierarchy cats))"
  shows "\<exists>x \<in> set cats. c_isActive x \<and> c_id x = i \<and> c_parentCategory x = None"
  using second_pass_roots [of i "\<lparr>h_roots = [], h_nodes = foldl (first_pass cats) Map.empty (active_sorted cats)\<rparr>" "active_sorted cats"] assms
  by (auto simp: getHierarchy_def Let_def active_sorted_def)

lemma getHierarchy_nodes:
  assumes "h_nodes (getHierarchy cats) k = Some n"
  shows "(\<exists>d \<in> set cats. c_isActive d \<and> c_id d = k)
         \<and> n_subcategories n = filter (\<lambda>d. c_parentCategory d = Some k) cats
         \<and> (\<forall>i \<in> set (n_children n).
               \<exists>x \<in> set cats. c_isActive x \<and> c_id x = i \<and> c_parentCategory x = Some k)"
proof -
  let ?found = "active_sorted cats"
  let ?m = "foldl (first_pass cats) Map.empty ?found"
  have found: "set ?found = {c \<in> set cats. c_isActive c}"
    by (simp add: active_sorted_def)
  from assms have "h_nodes (foldl second_pass \<lparr>h_roots = [], h_nodes = ?m\<rparr> ?found) k = Some n"
    by (simp add: getHierarchy_def Let_def)
  from second_pass_nodes [OF this] obtain n0 where
    n0: "?m k = Some n0" and sub: "n_subcategories n = n_subcategories n0"
    and ch: "\<forall>i \<in> set (n_children n). i \<in> set (n_children n0)
               \<or> (\<exists>x \<in> set ?found. c_id x = i \<and> c_parentCategory x = Some k)"
    by auto
  from first_pass_nodes [OF n0] have
    k: "k \<in> c_id ` set ?found" and e: "n_children n0 = []"
    and s0: "n_subcategories n0 = filter (\<lambda>d. c_parentCategory d = Some k) cats"
    by simp_all
  from k found have "\<exists>d \<in> set cats. c_isActive d \<and> c_id d = k" by auto
  moreover from sub s0 have "n_subcategories n = filter (\<lambda>d. c_parentCategory d = Some k) cats"
    by simp
  moreover from ch e found
  have "\<forall>i \<in> set (n_children n). \<exists>x \<in> set cats. c_isActive x \<and> c_id x = i \<and> c_parentCategory x = Some k"
    by auto
  ultimately show ?thesis by blast
qed

text \<open>
  Claim C10. In the result of \<^verbatim>\<open>getHierarchy\<close>, an active category whose parent reference
  names no active category (the parent is inactive or does not exist) is not among the
  roots, is in no node's \<open>children\<close> list and in no node's populated \<open>subcategories\<close>, and so
  is not a node of the returned forest. Ids are the collection's primary key, hence
  distinct.
\<close>

theorem getHierarchy_omits_orphan:
  assumes ids: "distinct (map c_id cats)"
    and c: "c \<in> set cats" and act: "c_isActive c"
    and par: "c_parentCategory c = Some p"
    and orphan: "\<not> (\<exists>d \<in> set cats. c_id d = p \<and> c_isActive d)"
  shows "c_id c \<notin> set (h_roots (getHierarchy cats))
         \<and> (\<forall>k n. h_nodes (getHierarchy cats) k = Some n \<longrightarrow>
               c_id c \<notin> set (n_children n) \<and> c \<notin> set (n_subcategories n))
         \<and> c_id c \<notin> forest_ids (getHierarchy cats)"
proof -
  have same: "x = c" if "x \<in> set cats" "c_id x = c_id c" for x
    using ids c that by (meson distinct_map inj_onD)
  have roots: "c_id c \<notin> set (h_roots (getHierarchy cats))"
  proof
    assume "c_id c \<in> set (h_roots (getHierarchy cats))"
    from getHierarchy_roots [OF this] obtain x where
      x: "x \<in> set cats" "c_id x = c_id c" and xp: "c_parentCategory x = None" by auto
    from same [OF x] xp par show False by simp
  qed
  have nodes: "c_id c \<notin> set (n_children n) \<and> c \<notin> set (n_subcategories n)"
    if n: "h_nodes (getHierarchy cats) k = Some n" for k n
  proof -
    from getHierarchy_nodes [OF n] have
      k: "\<exists>d \<in> set cats. c_isActive d \<and> c_id d = k"
      and sub: "n_subcategories n = filter (\<lambda>d. c_parentCategory d = Some k) cats"
      and ch: "\<forall>i \<in> set (n_children n).
               \<exists>x \<in> set cats. c_isActive x \<and> c_id x = i \<and> c_parentCategory x = Some k"
      by blast+
    from k orphan have kp: "k \<noteq> p" by auto
    have "c_id c \<notin> set (n_children n)"
    proof
      assume "c_id c \<in> set (n_children n)"
      with ch obtain x where x: "x \<in> set cats" "c_id x = c_id c"
        and xp: "c_parentCategory x = Some k"
        by auto
      from same [OF x] xp par kp show False by simp
    qed
    moreover from sub par kp have "c \<notin> set (n_subcategories n)" by auto
    ultimately show ?thesis by simp
  qed
  have "i \<noteq> c_id c" if "i \<in> forest_ids (getHierarchy cats)" for i
    using that
  proof (induction rule: forest_ids.induct)
    case (root i)
    with roots show ?case by auto
  next
    case (child q n i)
    with nodes show ?case by auto
  qed
  then have "c_id c \<notin> forest_ids (getHierarchy cats)" by auto
  with roots nodes show ?thesis by blast
qed

theorem getHierarchy_omits_orphan_witness:
  "distinct (map c_id ex_orphans)
   \<and> mk_category 3 ''Phishing'' (Some 2) True 7 \<in> set ex_orphans
   \<and> c_isActive (mk_category 3 ''Phishing'' (Some 2) True 7)
   \<and> c_parentCategory (mk_category 3 ''Phishing'' (Some 2) True 7) = Some 2
   \<and> \<not> (\<exists>d \<in> set ex_orphans. c_id d = 2 \<and> c_isActive d)
   \<and> 3 \<notin> set (h_roots (getHierarchy ex_orphans))
   \<and> 3 \<notin> forest_ids (getHierarchy ex_orphans)"
  using getHierarchy_omits_orphan [of ex_orphans "mk_category 3 ''Phishing'' (Some 2) True 7" 2]
  by (simp add: ex_orphans_def mk_category_def)

section \<open>Only an admin sets the active flag\<close>

lemma findById_put_category:
  "c_id doc \<in> c_id ` set cats \<Longrightarrow> findById (put_category cats doc) (c_id doc) = Some doc"
proof -
  have "find (\<lambda>c. c_id c = c_id doc) (map (\<lambda>c. if c_id c = c_id doc then doc else c) cats) = Some doc"
    if "c_id doc \<in> c_id ` set cats" for cats
    using that by (induction cats) auto
  then show "c_id doc \<in> c_id ` set cats \<Longrightarrow> ?thesis"
    by (simp add: put_category_def findById_def)
qed

lemma save_category_fields:
  "save_category cats old doc = Inr doc1 \<Longrightarrow>
     doc1 = doc \<or> doc1 = doc\<lparr>c_slug := generateSlug cats (c_id doc) (c_name doc)\<rparr>"
  by (auto simp: save_category_def Let_def split: if_splits)

lemma updateCategory_Inl: "updateCategory s actor i body = (Inl e, s') \<Longrightarrow> s' = s"
  by (auto simp: updateCategory_def split: option.splits if_splits sum.splits save_error.splits)

lemma updateCategory_stored:
  assumes old: "findById (categories s) i = Some old"
    and upd: "updateCategory s actor i body = (Inr doc, s')"
  shows "findById (categories s') i = Some doc"
    and "c_isActive doc =
          (case b_isActive body of
             Some v \<Rightarrow> if u_role actor = Admin then v else c_isActive old
           | None \<Rightarrow> c_isActive old)"
    and "c_name doc = (case b_name body of Some v \<Rightarrow> trim v | None \<Rightarrow> c_name old)"
    and "c_description doc =
            (case b_description body of Some v \<Rightarrow> trim v | None \<Rightarrow> c_description old)"
    and "c_color doc = (case b_color body of Some v \<Rightarrow> v | None \<Rightarrow> c_color old)"
    and "c_icon doc = (case b_icon body of Some v \<Rightarrow> trim v | None \<Rightarrow> c_icon old)"
    and "c_order doc = (case b_order body of Some v \<Rightarrow> v | None \<Rightarrow> c_order old)"
    and "c_metadata doc =
            (case b_metadata body of Some m \<Rightarrow> merge_metadata (c_metadata old) m
             | None \<Rightarrow> c_metadata old)"
    and "c_parentCategory doc =
            (case b_parentCategory body of Some q \<Rightarrow> q | None \<Rightarrow> c_parentCategory old)"
    and "c_id doc = i"
    and "c_createdBy doc = c_createdBy old"
proof -
  from old have idold: "c_id old = i" and mem: "old \<in> set (categories s)"
    by (auto dest: findById_Some)
  from upd old have r1:
    "(case assign_parent (categories s) body (assign_fields actor body old) of
        Inl e \<Rightarrow> (Inl e, s)
      | Inr edited \<Rightarrow>
          (case save_category (categories s) (Some old) edited of
             Inl CircularReference \<Rightarrow> (Inl ReferenciaCircular, s)
           | Inl ValidationFailed \<Rightarrow> (Inl ErrorDeValidacion, s)
           | Inl DuplicateKey \<Rightarrow> (Inl ErrorInterno, s)
           | Inr doc \<Rightarrow> (Inr doc, s\<lparr>categories := put_category (categories s) doc\<rparr>)))
      = (Inr doc, s')"
    by (simp add: updateCategory_def split: if_splits)
  then obtain edited where
    ed: "assign_parent (categories s) body (assign_fields actor body old) = Inr edited"
    and r2: "(case save_category (categories s) (Some old) edited of
             Inl CircularReference \<Rightarrow> (Inl ReferenciaCircular, s)
           | Inl ValidationFailed \<Rightarrow> (Inl ErrorDeValidacion, s)
           | Inl DuplicateKey \<Rightarrow> (Inl ErrorInterno, s)
           | Inr doc \<Rightarrow> (Inr doc, s\<lparr>categories := put_category (categories s) doc\<rparr>))
      = (Inr doc, s')"
    by (cases "assign_parent (categories s) body (assign_fields actor body old)") simp_all
  then have sv: "save_category (categories s) (Some old) edited = Inr doc"
    and s': "s' = s\<lparr>categories := put_category (categories s) doc\<rparr>"
    by (cases "save_category (categories s) (Some old) edited"; simp split: save_error.splits)+
  from ed have edited: "edited = (assign_fields actor body old)
      \<lparr>c_parentCategory := (case b_parentCategory body of Some q \<Rightarrow> q | None \<Rightarrow> c_parentCategory old)\<rparr>"
  proof -
    have pf: "c_parentCategory old = c_parentCategory (assign_fields actor body old)"
      by (simp add: assign_fields_def)
    from ed show ?thesis
      by (auto simp: assign_parent_def pf split: option.splits if_splits)
  qed
  from save_category_fields [OF sv] have
    doc: "doc = edited \<or> doc = edited\<lparr>c_slug := generateSlug (categories s) (c_id edited) (c_name edited)\<rparr>" .
  then have same:
    "c_id doc = c_id edited" "c_isActive doc = c_isActive edited" "c_name doc = c_name edited"
    "c_description doc = c_description edited" "c_color doc = c_color edited"
    "c_icon doc = c_icon edited" "c_order doc = c_order edited"
    "c_metadata doc = c_metadata edited" "c_parentCategory doc = c_parentCategory edited"
    "c_createdBy doc = c_createdBy edited"
    by auto
  from idold show iddoc: "c_id doc = i"
    by (simp add: same edited assign_fields_def)
  from mem have "c_id old \<in> c_id ` set (categories s)" by (rule imageI)
  with iddoc idold have "c_id doc \<in> c_id ` set (categories s)" by simp
  from findById_put_category [OF this]
  have "findById (put_category (categories s) doc) i = Some doc"
    by (simp only: iddoc)
  then show "findById (categories s') i = Some doc"
    by (simp add: s')
  show "c_isActive doc =
          (case b_isActive body of
             Some v \<Rightarrow> if u_role actor = Admin then v else c_isActive old
           | None \<Rightarrow> c_isActive old)"
    by (simp add: same edited assign_fields_def)
  show "c_name doc = (case b_name body of Some v \<Rightarrow> trim v | None \<Rightarrow> c_name old)"
    by (simp add: same edited assign_fields_def)
  show "c_description doc =
            (case b_description body of Some v \<Rightarrow> trim v | None \<Rightarrow> c_description old)"
    by (simp add: same edited assign_fields_def)
  show "c_color doc = (case b_color body of Some v \<Rightarrow> v | None \<Rightarrow> c_color old)"
    by (simp add: same edited assign_fields_def)
  show "c_icon doc = (case b_icon body of Some v \<Rightarrow> trim v | None \<Rightarrow> c_icon old)"
    by (simp add: same edited assign_fields_def)
  show "c_order doc = (case b_order body of Some v \<Rightarrow> v | None \<Rightarrow> c_order old)"
    by (simp add: same edited assign_fields_def)
  show "c_metadata doc =
            (case b_metadata body of Some m \<Rightarrow> merge_metadata (c_metadata old) m
             | None \<Rightarrow> c_metadata old)"
    by (simp add: same edited assign_fields_def)
  show "c_parentCategory doc =
            (case b_parentCategory body of Some q \<Rightarrow> q | None \<Rightarrow> c_parentCategory old)"
    by (simp add: same edited assign_fields_def)
  show "c_createdBy doc = c_createdBy old"
    by (simp add: same edited assign_fields_def)
qed

text \<open>
  Claim C9. In \<^verbatim>\<open>updateCategory\<close>, for a caller who is not an admin the \<open>isActive\<close> key of
  the body has no effect at all: the request answers and leaves the database exactly as the
  same request without that key, and after the request, whether it succeeded or was
  refused, the stored category has the active flag it had before. A refused update, of any
  caller, leaves the whole database as it was. Whenever an update succeeds, the stored
  document carries every other field the body supplied: name, description and icon
  trimmed, color, order and parent as given, and of the metadata each of the three keys
  that the body's metadata has, the stored list being kept for a key it does not have. Its
  active flag is the body's value only for an admin and the stored value otherwise.
\<close>

theorem updateCategory_isActive:
  "(u_role actor \<noteq> Admin \<longrightarrow>
      updateCategory s actor i body = updateCategory s actor i (body\<lparr>b_isActive := None\<rparr>))
   \<and> (u_role actor \<noteq> Admin \<and> findById (categories s) i = Some old \<longrightarrow>
        (\<exists>stored. findById (categories (snd (updateCategory s actor i body))) i = Some stored
                   \<and> c_isActive stored = c_isActive old))
   \<and> (updateCategory s actor i body = (Inl e, s') \<longrightarrow> s' = s)
   \<and> (findById (categories s) i = Some old \<and> updateCategory s actor i body = (Inr doc, s') \<longrightarrow>
        c_isActive doc =
          (case b_isActive body of
             Some v \<Rightarrow> if u_role actor = Admin then v else c_isActive old
           | None \<Rightarrow> c_isActive old)
        \<and> findById (categories s') i = Some doc
        \<and> c_name doc = (case b_name body of Some v \<Rightarrow> trim v | None \<Rightarrow> c_name old)
        \<and> c_description doc =
            (case b_description body of Some v \<Rightarrow> trim v | None \<Rightarrow> c_description old)
        \<and> c_color doc = (case b_color body of Some v \<Rightarrow> v | None \<Rightarrow> c_color old)
        \<and> c_icon doc = (case b_icon body of Some v \<Rightarrow> trim v | None \<Rightarrow> c_icon old)
        \<and> c_order doc = (case b_order body of Some v \<Rightarrow> v | None \<Rightarrow> c_order old)
        \<and> m_tactics (c_metadata doc) =
            (case Option.bind (b_metadata body) mb_tactics of
               Some v \<Rightarrow> v | None \<Rightarrow> m_tactics (c_metadata old))
        \<and> m_platforms (c_metadata doc) =
            (case Option.bind (b_metadata body) mb_platforms of
               Some v \<Rightarrow> v | None \<Rightarrow> m_platforms (c_metadata old))
        \<and> m_killChainPhases (c_metadata doc) =
            (case Option.bind (b_metadata body) mb_killChainPhases of
               Some v \<Rightarrow> v | None \<Rightarrow> m_killChainPhases (c_metadata old))
        \<and> c_parentCategory doc =
            (case b_parentCategory body of Some q \<Rightarrow> q | None \<Rightarrow> c_parentCategory old)
        \<and> c_id doc = c_id old
        \<and> c_createdBy doc = c_createdBy old)"
proof (intro conjI impI)
  assume "u_role actor \<noteq> Admin"
  then have af: "assign_fields actor (body\<lparr>b_isActive := None\<rparr>) c = assign_fields actor body c" for c
    by (simp add: assign_fields_def split: option.splits)
  have ap: "assign_parent cats (body\<lparr>b_isActive := None\<rparr>) c = assign_parent cats body c" for cats c
    by (simp add: assign_parent_def)
  show "updateCategory s actor i body = updateCategory s actor i (body\<lparr>b_isActive := None\<rparr>)"
    by (simp add: updateCategory_def af ap cong: option.case_cong if_cong)
next
  assume a: "u_role actor \<noteq> Admin \<and> findById (categories s) i = Some old"
  show "\<exists>stored. findById (categories (snd (updateCategory s actor i body))) i = Some stored
                   \<and> c_isActive stored = c_isActive old"
  proof (cases "updateCategory s actor i body")
    case (Pair r t)
    show ?thesis
    proof (cases r)
      case (Inl err)
      with Pair have "t = s" by (simp add: updateCategory_Inl)
      with Pair a show ?thesis by simp
    next
      case (Inr d)
      with Pair a have u: "updateCategory s actor i body = (Inr d, t)"
        and o: "findById (categories s) i = Some old" by simp_all
      from updateCategory_stored(1,2) [OF o u] a
      have "findById (categories t) i = Some d \<and> c_isActive d = c_isActive old"
        by (simp split: option.splits)
      with Pair show ?thesis by simp
    qed
  qed
next
  assume "updateCategory s actor i body = (Inl e, s')"
  then show "s' = s" by (rule updateCategory_Inl)
next
  assume a: "findById (categories s) i = Some old \<and> updateCategory s actor i body = (Inr doc, s')"
  then have old: "findById (categories s) i = Some old"
    and upd: "updateCategory s actor i body = (Inr doc, s')" by simp_all
  note st = updateCategory_stored [OF old upd]
  from old have idold: "c_id old = i" by (auto dest: findById_Some)
  show "c_isActive doc =
          (case b_isActive body of
             Some v \<Rightarrow> if u_role actor = Admin then v else c_isActive old
           | None \<Rightarrow> c_isActive old)" by (rule st)
  show "findById (categories s') i = Some doc" by (rule st)
  show "c_name doc = (case b_name body of Some v \<Rightarrow> trim v | None \<Rightarrow> c_name old)" by (rule st)
  show "c_description doc =
            (case b_description body of Some v \<Rightarrow> trim v | None \<Rightarrow> c_description old)"
    by (rule st)
  show "c_color doc = (case b_color body of Some v \<Rightarrow> v | None \<Rightarrow> c_color old)" by (rule st)
  show "c_icon doc = (case b_icon body of Some v \<Rightarrow> trim v | None \<Rightarrow> c_icon old)" by (rule st)
  show "c_order doc = (case b_order body of Some v \<Rightarrow> v | None \<Rightarrow> c_order old)" by (rule st)
  show "m_tactics (c_metadata doc) =
            (case Option.bind (b_metadata body) mb_tactics of
               Some v \<Rightarrow> v | None \<Rightarrow> m_tactics (c_metadata old))"
    by (simp add: st(8) merge_metadata_def split: option.splits)
  show "m_platforms (c_metadata doc) =
            (case Option.bind (b_metadata body) mb_platforms of
               Some v \<Rightarrow> v | None \<Rightarrow> m_platforms (c_metadata old))"
    by (simp add: st(8) merge_metadata_def split: option.splits)
  show "m_killChainPhases (c_metadata doc) =
            (case Option.bind (b_metadata body) mb_killChainPhases of
               Some v \<Rightarrow> v | None \<Rightarrow> m_killChainPhases (c_metadata old))"
    by (simp add: st(8) merge_metadata_def split: option.splits)
  show "c_parentCategory doc =
            (case b_parentCategory body of Some q \<Rightarrow> q | None \<Rightarrow> c_parentCategory old)"
    by (rule st)
  show "c_id doc = c_id old" by (simp add: st idold)
  show "c_createdBy doc = c_createdBy old" by (rule st)
qed

text \<open>A stored category with metadata, a patch that supplies every field, the document an
  editor's patch leaves, and three callers: the creator, another editor, an admin.\<close>

definition ex_stored :: category where
  "ex_stored =
     (mk_category 1 ''Initial Access'' None True 7)
       \<lparr>c_metadata :=
          \<lparr>m_tactics = [''TA0043''], m_platforms = [''Windows''], m_killChainPhases = []\<rparr>\<rparr>"

definition ex_store :: db where
  "ex_store = ex_db\<lparr>categories := [ex_stored]\<rparr>"

definition ex_restyle :: category_body where
  "ex_restyle =
     \<lparr>b_name = Some '' Entry Points '', b_description = Some ''Entry vectors'',
      b_color = Some ''#fff'', b_icon = Some '' star '', b_parentCategory = None,
      b_order = Some 5,
      b_metadata =
        Some \<lparr>mb_tactics = Some [''TA0001''], mb_platforms = None, mb_killChainPhases = None\<rparr>,
      b_isActive = Some False\<rparr>"

definition ex_restyled :: category where
  "ex_restyled =
     \<lparr>c_id = 1, c_name = ''Entry Points'', c_slug = ''entry-points'',
      c_description = ''Entry vectors'', c_color = ''#fff'', c_icon = ''star'',
      c_parentCategory = None, c_order = 5, c_isActive = True,
      c_metadata =
        \<lparr>m_tactics = [''TA0001''], m_platforms = [''Windows''], m_killChainPhases = []\<rparr>,
      c_createdBy = 7\<rparr>"

definition ex_outsider :: user where
  "ex_outsider = \<lparr>u_id = 8, u_role = Editor\<rparr>"

definition ex_admin :: user where
  "ex_admin = \<lparr>u_id = 9, u_role = Admin\<rparr>"

lemma ex_restyle_editor:
  "updateCategory ex_store ex_editor 1 ex_restyle
     = (Inr ex_restyled, ex_store\<lparr>categories := [ex_restyled]\<rparr>)"
  by code_simp

lemma ex_restyle_outsider:
  "updateCategory ex_store ex_outsider 1 ex_restyle = (Inl SinPermisos, ex_store)"
  by code_simp

lemma ex_restyle_admin:
  "updateCategory ex_store ex_admin 1 ex_restyle
     = (Inr (ex_restyled\<lparr>c_isActive := False\<rparr>),
        ex_store\<lparr>categories := [ex_restyled\<lparr>c_isActive := False\<rparr>]\<rparr>)"
  by code_simp

theorem updateCategory_isActive_witness:
  "u_role ex_editor \<noteq> Admin
   \<and> findById (categories ex_store) 1 = Some ex_stored
   \<and> c_isActive ex_stored = True
   \<and> b_isActive ex_restyle = Some False
   \<and> updateCategory ex_store ex_editor 1 ex_restyle
       = updateCategory ex_store ex_editor 1 (ex_restyle\<lparr>b_isActive := None\<rparr>)
   \<and> updateCategory ex_store ex_editor 1 ex_restyle
       = (Inr ex_restyled, ex_store\<lparr>categories := [ex_restyled]\<rparr>)
   \<and> findById (categories (ex_store\<lparr>categories := [ex_restyled]\<rparr>)) 1 = Some ex_restyled
   \<and> c_isActive ex_restyled = True
   \<and> c_name ex_restyled = ''Entry Points''
   \<and> c_description ex_restyled = ''Entry vectors''
   \<and> c_color ex_restyled = ''#fff''
   \<and> c_icon ex_restyled = ''star''
   \<and> c_order ex_restyled = 5
   \<and> m_tactics (c_metadata ex_restyled) = [''TA0001'']
   \<and> m_platforms (c_metadata ex_restyled) = [''Windows'']
   \<and> m_killChainPhases (c_metadata ex_restyled) = []
   \<and> c_parentCategory ex_restyled = None
   \<and> updateCategory ex_store ex_outsider 1 ex_restyle = (Inl SinPermisos, ex_store)
   \<and> findById (categories (snd (updateCategory ex_store ex_outsider 1 ex_restyle))) 1
       = Some ex_stored
   \<and> fst (updateCategory ex_store ex_admin 1 ex_restyle)
       = Inr (ex_restyled\<lparr>c_isActive := False\<rparr>)
   \<and> c_isActive (ex_restyled\<lparr>c_isActive := False\<rparr>) = False"
proof -
  have role: "u_role ex_editor \<noteq> Admin" "u_role ex_outsider \<noteq> Admin" "u_role ex_admin = Admin"
    by (simp_all add: ex_editor_def ex_outsider_def ex_admin_def)
  have found: "findById (categories ex_store) 1 = Some ex_stored"
    by (simp add: ex_store_def findById_def ex_stored_def mk_category_def)
  have flag: "c_isActive ex_stored = True"
    by (simp add: ex_stored_def mk_category_def)
  have trims: "trim '' Entry Points '' = ''Entry Points''" "trim ''Entry vectors'' = ''Entry vectors''"
    "trim '' star '' = ''star''"
    by code_simp+
  have body: "b_name ex_restyle = Some '' Entry Points ''"
    "b_description ex_restyle = Some ''Entry vectors''" "b_color ex_restyle = Some ''#fff''"
    "b_icon ex_restyle = Some '' star ''" "b_order ex_restyle = Some 5"
    "b_parentCategory ex_restyle = None" "b_isActive ex_restyle = Some False"
    "b_metadata ex_restyle
       = Some \<lparr>mb_tactics = Some [''TA0001''], mb_platforms = None, mb_killChainPhases = None\<rparr>"
    by (simp_all add: ex_restyle_def)
  have stored: "c_metadata ex_stored
       = \<lparr>m_tactics = [''TA0043''], m_platforms = [''Windows''], m_killChainPhases = []\<rparr>"
    "c_parentCategory ex_stored = None"
    by (simp_all add: ex_stored_def mk_category_def)
  from updateCategory_isActive
         [where actor = ex_editor and s = ex_store and i = 1 and body = ex_restyle
            and old = ex_stored and doc = ex_restyled
            and s' = "ex_store\<lparr>categories := [ex_restyled]\<rparr>"]
       role found ex_restyle_editor
  have editor:
    "updateCategory ex_store ex_editor 1 ex_restyle
       = updateCategory ex_store ex_editor 1 (ex_restyle\<lparr>b_isActive := None\<rparr>)
     \<and> findById (categories (ex_store\<lparr>categories := [ex_restyled]\<rparr>)) 1 = Some ex_restyled
     \<and> c_isActive ex_restyled = True
     \<and> c_name ex_restyled = ''Entry Points''
     \<and> c_description ex_restyled = ''Entry vectors''
     \<and> c_color ex_restyled = ''#fff''
     \<and> c_icon ex_restyled = ''star''
     \<and> c_order ex_restyled = 5
     \<and> m_tactics (c_metadata ex_restyled) = [''TA0001'']
     \<and> m_platforms (c_metadata ex_restyled) = [''Windows'']
     \<and> m_killChainPhases (c_metadata ex_restyled) = []
     \<and> c_parentCategory ex_restyled = None"
    by (simp add: body stored flag trims)
  from updateCategory_isActive
         [where actor = ex_outsider and s = ex_store and i = 1 and body = ex_restyle
            and old = ex_stored and e = SinPermisos and s' = ex_store]
       role found ex_restyle_outsider flag
  have outsider:
    "findById (categories (snd (updateCategory ex_store ex_outsider 1 ex_restyle))) 1
       = Some ex_stored"
    by simp
  from updateCategory_isActive
         [where actor = ex_admin and s = ex_store and i = 1 and body = ex_restyle
            and old = ex_stored and doc = "ex_restyled\<lparr>c_isActive := False\<rparr>"
            and s' = "ex_store\<lparr>categories := [ex_restyled\<lparr>c_isActive := False\<rparr>]\<rparr>"]
       role found ex_restyle_admin
  have admin: "c_isActive (ex_restyled\<lparr>c_isActive := False\<rparr>) = False"
    by (simp add: body)
  from role found flag body(7) editor ex_restyle_editor ex_restyle_outsider outsider
    ex_restyle_admin admin
  show ?thesis by simp
qed

section \<open>The parent relation never has a cycle\<close>

text \<open>The parent relation of a collection: the pairs (category, its parent reference).\<close>

definition parent_rel :: "category list \<Rightarrow> (objectId \<times> objectId) set" where
  "parent_rel cats = {(c_id c, p) | c p. c \<in> set cats \<and> c_parentCategory c = Some p}"

lemma parent_rel_edge:
  assumes "distinct (map c_id cats)" "cur \<in> set cats" "(c_id cur, y) \<in> parent_rel cats"
  shows "c_parentCategory cur = Some y"
proof -
  from assms(3) obtain c where c: "c \<in> set cats" "c_id c = c_id cur" "c_parentCategory c = Some y"
    by (auto simp: parent_rel_def)
  from assms(1,2) c(1,2) have "c = cur"
    by (meson distinct_map inj_onD)
  with c(3) show ?thesis by simp
qed

lemma parent_rel_member:
  "c \<in> set cats \<Longrightarrow> c_parentCategory c = Some p \<Longrightarrow> (c_id c, p) \<in> parent_rel cats"
  by (auto simp: parent_rel_def)

lemma parent_rel_source: "(a, b) \<in> parent_rel cats \<Longrightarrow> a \<in> c_id ` set cats"
  by (auto simp: parent_rel_def)

lemma reach_from_missing:
  assumes "(y, x) \<in> (parent_rel cats)\<^sup>*" "y \<notin> c_id ` set cats"
  shows "x = y"
  using assms by (auto elim: converse_rtranclE dest: parent_rel_source)

lemma findById_Some_iff:
  "distinct (map c_id cats) \<Longrightarrow> d \<in> set cats \<Longrightarrow> findById cats (c_id d) = Some d"
proof -
  assume d: "distinct (map c_id cats)" "d \<in> set cats"
  then have "c_id d \<in> c_id ` set cats" by simp
  then obtain e where e: "findById cats (c_id d) = Some e"
    using findById_None [of cats "c_id d"] by (cases "findById cats (c_id d)") auto
  with findById_Some [OF e] d have "e = d"
    by (meson distinct_map inj_onD)
  with e show ?thesis by simp
qed

lemma loop_sound:
  "validateParent_loop cats current V \<Longrightarrow> distinct (map c_id cats) \<Longrightarrow>
   current = Some cur \<Longrightarrow> cur \<in> set cats \<Longrightarrow> V \<subseteq> c_id ` set cats \<Longrightarrow> x \<in> V \<Longrightarrow>
   (c_id cur, x) \<notin> (parent_rel cats)\<^sup>*"
proof (induction cats current V arbitrary: cur x rule: validateParent_loop.induct)
  case (1 cats current visited)
  from "1.prems"(1,3) have fresh: "c_id cur \<notin> visited"
    and rest: "validateParent_loop cats (parent_doc cats cur) (insert (c_id cur) visited)"
    by (simp_all add: validateParent_loop.simps [of cats "Some cur" visited] split: if_splits)
  show ?case
  proof
    assume reach: "(c_id cur, x) \<in> (parent_rel cats)\<^sup>*"
    from fresh "1.prems"(6) have "c_id cur \<noteq> x" by auto
    with reach obtain y where edge: "(c_id cur, y) \<in> parent_rel cats"
      and tail: "(y, x) \<in> (parent_rel cats)\<^sup>*"
      by (auto elim: converse_rtranclE)
    from parent_rel_edge [OF "1.prems"(2,4) edge] have par: "c_parentCategory cur = Some y" .
    show False
    proof (cases "findById cats y")
      case None
      then have "y \<notin> c_id ` set cats" by (simp add: findById_None)
      with reach_from_missing [OF tail] "1.prems"(5,6) show False by auto
    next
      case (Some d)
      from findById_Some [OF Some] have d: "d \<in> set cats" "c_id d = y" by simp_all
      from Some par have pd: "parent_doc cats cur = Some d"
        by (simp add: parent_doc_def)
      from "1.prems"(4,5) have sub: "insert (c_id cur) visited \<subseteq> c_id ` set cats" by auto
      from "1.prems"(6) have xin: "x \<in> insert (c_id cur) visited" by simp
      from "1.IH" [OF "1.prems"(3) fresh rest "1.prems"(2) pd d(1) sub xin] tail d(2)
      show False by simp
    qed
  qed
qed

lemma loop_complete:
  "distinct (map c_id cats) \<Longrightarrow> current = Some cur \<Longrightarrow> cur \<in> set cats \<Longrightarrow>
   V \<subseteq> c_id ` set cats \<Longrightarrow> x \<in> V \<Longrightarrow> (c_id cur, x) \<in> (parent_rel cats)\<^sup>* \<Longrightarrow>
   \<not> validateParent_loop cats current V"
proof (induction cats current V arbitrary: cur x rule: validateParent_loop.induct)
  case (1 cats current visited)
  show ?case
  proof (cases "c_id cur \<in> visited")
    case True
    with "1.prems"(2) show ?thesis
      by (simp add: validateParent_loop.simps [of cats "Some cur" visited])
  next
    case False
    with "1.prems"(5) have "c_id cur \<noteq> x" by auto
    with "1.prems"(6) obtain y where edge: "(c_id cur, y) \<in> parent_rel cats"
      and tail: "(y, x) \<in> (parent_rel cats)\<^sup>*"
      by (auto elim: converse_rtranclE)
    from parent_rel_edge [OF "1.prems"(1,3) edge] have par: "c_parentCategory cur = Some y" .
    have "y \<in> c_id ` set cats"
    proof (rule ccontr)
      assume "y \<notin> c_id ` set cats"
      with reach_from_missing [OF tail] "1.prems"(4,5) show False by auto
    qed
    then obtain d where fd: "findById cats y = Some d"
      using findById_None [of cats y] by (cases "findById cats y") auto
    from findById_Some [OF fd] have d: "d \<in> set cats" "c_id d = y" by simp_all
    from fd par have pd: "parent_doc cats cur = Some d"
      by (simp add: parent_doc_def)
    from "1.prems"(3,4) have sub: "insert (c_id cur) visited \<subseteq> c_id ` set cats" by auto
    from "1.prems"(5) have xin: "x \<in> insert (c_id cur) visited" by simp
    from tail d(2) have reach: "(c_id d, x) \<in> (parent_rel cats)\<^sup>*" by simp
    from "1.IH" [OF "1.prems"(2) False "1.prems"(1) pd d(1) sub xin reach]
    have "\<not> validateParent_loop cats (parent_doc cats cur) (insert (c_id cur) visited)" .
    with False "1.prems"(2) show ?thesis
      by (simp add: validateParent_loop.simps [of cats "Some cur" visited])
  qed
qed

text \<open>The requests that write categories, and the database after a sequence of them, each
  handled to its end before the next, starting from empty collections.\<close>

datatype request =
    CreateCategory user category_body
  | UpdateCategory user objectId category_body
  | DeleteCategory user objectId

fun handle :: "db \<Rightarrow> request \<Rightarrow> db" where
  "handle s (CreateCategory actor body) = snd (createCategory s actor body)"
| "handle s (UpdateCategory actor i body) = snd (updateCategory s actor i body)"
| "handle s (DeleteCategory actor i) = snd (deleteCategory s actor i)"

definition empty_db :: db where
  "empty_db = \<lparr>categories = [], techniques = [], files = {}, nextId = 0\<rparr>"

definition run :: "request list \<Rightarrow> db" where
  "run reqs = foldl handle empty_db reqs"

lemma save_category_Inr:
  assumes "save_category cats old doc = Inr saved"
  shows "c_id saved = c_id doc \<and> c_parentCategory saved = c_parentCategory doc
         \<and> c_name saved = c_name doc
         \<and> ((case old of None \<Rightarrow> True | Some c \<Rightarrow> c_parentCategory c \<noteq> c_parentCategory doc)
                \<longrightarrow> validateParent cats saved)
         \<and> (if (case old of None \<Rightarrow> True | Some c \<Rightarrow> c_name c \<noteq> c_name doc)
             then c_slug saved = generateSlug cats (c_id doc) (c_name doc)
             else c_slug saved = c_slug doc)"
  using assms by (auto simp: save_category_def Let_def split: if_splits)

lemma createCategory_Inl: "createCategory s actor body = (Inl e, s') \<Longrightarrow> s' = s"
  by (auto simp: createCategory_def split: if_splits sum.splits save_error.splits)

lemma createCategory_Inr:
  assumes "createCategory s actor body = (Inr doc, s')"
  shows "s' = s\<lparr>categories := put_category (categories s) doc, nextId := Suc (nextId s)\<rparr>
         \<and> c_id doc = nextId s
         \<and> (\<forall>p. c_parentCategory doc = Some p \<longrightarrow> p \<in> c_id ` set (categories s))
         \<and> c_slug doc = generateSlug (categories s) (nextId s) (c_name doc)"
proof -
  from assms have sv: "save_category (categories s) None (categoryData (nextId s) actor body) = Inr doc"
    and s': "s' = s\<lparr>categories := put_category (categories s) doc, nextId := Suc (nextId s)\<rparr>"
    and par: "case body_parent body of Some p \<Rightarrow> findById (categories s) p \<noteq> None | None \<Rightarrow> True"
    by (auto simp: createCategory_def split: if_splits sum.splits save_error.splits option.splits)
  from save_category_Inr [OF sv] have
    "c_id doc = nextId s" "c_parentCategory doc = body_parent body"
    "c_slug doc = generateSlug (categories s) (nextId s) (c_name doc)"
    by (simp_all add: categoryData_def)
  with par s' show ?thesis
    by (auto simp: findById_None split: option.splits)
qed

lemma assign_fields_keeps:
  "c_id (assign_fields actor body c) = c_id c"
  "c_slug (assign_fields actor body c) = c_slug c"
  "c_parentCategory (assign_fields actor body c) = c_parentCategory c"
  by (simp_all add: assign_fields_def)

lemma assign_parent_Inr:
  assumes "assign_parent cats body c = Inr edited"
  shows "c_id edited = c_id c \<and> c_slug edited = c_slug c \<and> c_name edited = c_name c
         \<and> (c_parentCategory edited = c_parentCategory c
             \<or> c_parentCategory edited = None
             \<or> (\<exists>p. c_parentCategory edited = Some p \<and> p \<in> c_id ` set cats))"
  using assms
  by (auto simp: assign_parent_def findById_None split: option.splits if_splits)

lemma updateCategory_Inr:
  assumes "updateCategory s actor i body = (Inr doc, s')"
  shows "\<exists>old. findById (categories s) i = Some old
         \<and> s' = s\<lparr>categories := put_category (categories s) doc\<rparr>
         \<and> c_id doc = i
         \<and> (c_parentCategory doc = c_parentCategory old
             \<or> c_parentCategory doc = None
             \<or> (\<exists>p. c_parentCategory doc = Some p \<and> p \<in> c_id ` set (categories s)))
         \<and> (c_parentCategory doc \<noteq> c_parentCategory old \<longrightarrow> validateParent (categories s) doc)
         \<and> (if c_name doc \<noteq> c_name old
             then c_slug doc = generateSlug (categories s) i (c_name doc)
             else c_slug doc = c_slug old)"
proof -
  from assms obtain old where old: "findById (categories s) i = Some old"
    by (cases "findById (categories s) i") (auto simp: updateCategory_def)
  from assms old have r1:
    "(case assign_parent (categories s) body (assign_fields actor body old) of
        Inl e \<Rightarrow> (Inl e, s)
      | Inr edited \<Rightarrow>
          (case save_category (categories s) (Some old) edited of
             Inl CircularReference \<Rightarrow> (Inl ReferenciaCircular, s)
           | Inl ValidationFailed \<Rightarrow> (Inl ErrorDeValidacion, s)
           | Inl DuplicateKey \<Rightarrow> (Inl ErrorInterno, s)
           | Inr doc \<Rightarrow> (Inr doc, s\<lparr>categories := put_category (categories s) doc\<rparr>)))
      = (Inr doc, s')"
    by (simp add: updateCategory_def split: if_splits)
  then obtain edited where
    ed: "assign_parent (categories s) body (assign_fields actor body old) = Inr edited"
    and r2: "(case save_category (categories s) (Some old) edited of
             Inl CircularReference \<Rightarrow> (Inl ReferenciaCircular, s)
           | Inl ValidationFailed \<Rightarrow> (Inl ErrorDeValidacion, s)
           | Inl DuplicateKey \<Rightarrow> (Inl ErrorInterno, s)
           | Inr doc \<Rightarrow> (Inr doc, s\<lparr>categories := put_category (categories s) doc\<rparr>))
      = (Inr doc, s')"
    by (cases "assign_parent (categories s) body (assign_fields actor body old)") simp_all
  then have sv: "save_category (categories s) (Some old) edited = Inr doc"
    and s': "s' = s\<lparr>categories := put_category (categories s) doc\<rparr>"
    by (cases "save_category (categories s) (Some old) edited"; simp split: save_error.splits)+
  from findById_Some [OF old] have idold: "c_id old = i" by simp
  from assign_parent_Inr [OF ed] have e:
    "c_id edited = i" "c_slug edited = c_slug old"
    "c_parentCategory edited = c_parentCategory old
       \<or> c_parentCategory edited = None
       \<or> (\<exists>p. c_parentCategory edited = Some p \<and> p \<in> c_id ` set (categories s))"
    by (simp_all add: assign_fields_keeps idold)
  from save_category_Inr [OF sv] have d:
    "c_id doc = c_id edited" "c_parentCategory doc = c_parentCategory edited"
    "c_name doc = c_name edited"
    "c_parentCategory old \<noteq> c_parentCategory edited \<longrightarrow> validateParent (categories s) doc"
    "if c_name old \<noteq> c_name edited
     then c_slug doc = generateSlug (categories s) (c_id edited) (c_name edited)
     else c_slug doc = c_slug edited"
    by simp_all
  from old s' e d show ?thesis
    by (auto split: if_splits)
qed

lemma deleteCategory_effect:
  "deleteCategory s actor i = (r, s') \<Longrightarrow>
     s' = s \<or> s' = s\<lparr>categories := filter (\<lambda>c. c_id c \<noteq> i) (categories s)\<rparr>"
  by (auto simp: deleteCategory_def Let_def split: option.splits if_splits)

text \<open>What every request keeps: ids are distinct and below the id counter, parent
  references are below the counter, and the parent relation has no cycle.\<close>

definition tree_inv :: "db \<Rightarrow> bool" where
  "tree_inv s \<longleftrightarrow>
     distinct (map c_id (categories s))
     \<and> (\<forall>c \<in> set (categories s). c_id c < nextId s
           \<and> (\<forall>p. c_parentCategory c = Some p \<longrightarrow> p < nextId s))
     \<and> acyclic (parent_rel (categories s))"

lemma set_put_category:
  "set (put_category cats doc) = insert doc {c \<in> set cats. c_id c \<noteq> c_id doc}"
proof (cases "c_id doc \<in> c_id ` set cats")
  case True
  then show ?thesis by (auto simp: put_category_def)
next
  case False
  have "c_id c \<noteq> c_id doc" if "c \<in> set cats" for c
  proof
    assume "c_id c = c_id doc"
    with that have "c_id doc \<in> c_id ` set cats" by (simp add: rev_image_eqI)
    with False show False by simp
  qed
  then have "{c \<in> set cats. c_id c \<noteq> c_id doc} = set cats" by auto
  with False show ?thesis by (simp add: put_category_def)
qed

lemma ids_put_category:
  "map c_id (put_category cats doc) =
     (if c_id doc \<in> c_id ` set cats then map c_id cats else map c_id cats @ [c_id doc])"
proof -
  have "map c_id (map (\<lambda>c. if c_id c = c_id doc then doc else c) cats) = map c_id cats"
    by (induction cats) auto
  then show ?thesis by (simp add: put_category_def)
qed

lemma distinct_put_category:
  "distinct (map c_id cats) \<Longrightarrow> distinct (map c_id (put_category cats doc))"
  by (simp add: ids_put_category)

lemma parent_rel_put_category:
  "parent_rel (put_category cats doc) =
     {(a, b) \<in> parent_rel cats. a \<noteq> c_id doc}
       \<union> (case c_parentCategory doc of Some p \<Rightarrow> {(c_id doc, p)} | None \<Rightarrow> {})"
  unfolding parent_rel_def set_put_category
  by (auto split: option.splits)

lemma acyclic_put_category:
  assumes ac: "acyclic (parent_rel cats)"
    and safe: "\<And>p. c_parentCategory doc = Some p \<Longrightarrow> (p, c_id doc) \<notin> (parent_rel cats)\<^sup>*"
  shows "acyclic (parent_rel (put_category cats doc))"
proof -
  let ?R0 = "{(a, b) \<in> parent_rel cats. a \<noteq> c_id doc}"
  have sub: "?R0 \<subseteq> parent_rel cats" by auto
  from ac sub have ac0: "acyclic ?R0" by (rule acyclic_subset)
  show ?thesis
  proof (cases "c_parentCategory doc")
    case None
    with ac0 show ?thesis by (simp add: parent_rel_put_category)
  next
    case (Some p)
    from safe [OF Some] rtrancl_mono [OF sub] have "(p, c_id doc) \<notin> ?R0\<^sup>*" by blast
    with ac0 have "acyclic (insert (c_id doc, p) ?R0)" by (simp add: acyclic_insert)
    with Some show ?thesis by (simp add: parent_rel_put_category)
  qed
qed

lemma tree_inv_create:
  assumes inv: "tree_inv s" and r: "createCategory s actor body = (r, s')"
  shows "tree_inv s'"
proof (cases r)
  case (Inl e)
  with r inv createCategory_Inl show ?thesis by blast
next
  case (Inr doc)
  let ?cats = "categories s"
  from createCategory_Inr [OF r [unfolded Inr]] have
    s': "s' = s\<lparr>categories := put_category ?cats doc, nextId := Suc (nextId s)\<rparr>"
    and idn: "c_id doc = nextId s"
    and par: "\<forall>p. c_parentCategory doc = Some p \<longrightarrow> p \<in> c_id ` set ?cats"
    by simp_all
  from inv have d: "distinct (map c_id ?cats)"
    and b: "\<forall>c \<in> set ?cats. c_id c < nextId s \<and> (\<forall>p. c_parentCategory c = Some p \<longrightarrow> p < nextId s)"
    and ac: "acyclic (parent_rel ?cats)"
    by (simp_all add: tree_inv_def)
  have "(p, c_id doc) \<notin> (parent_rel ?cats)\<^sup>*" if p: "c_parentCategory doc = Some p" for p
  proof
    assume reach: "(p, c_id doc) \<in> (parent_rel ?cats)\<^sup>*"
    from p par b have "p < nextId s" by auto
    with idn have "p \<noteq> c_id doc" by simp
    with reach obtain z where "(z, c_id doc) \<in> parent_rel ?cats"
      by (auto elim: rtranclE)
    then obtain c where "c \<in> set ?cats" "c_parentCategory c = Some (nextId s)"
      by (auto simp: parent_rel_def idn)
    with b show False by auto
  qed
  with ac have ac': "acyclic (parent_rel (put_category ?cats doc))"
    by (rule acyclic_put_category)
  from par b have pb: "\<forall>p. c_parentCategory doc = Some p \<longrightarrow> p < Suc (nextId s)"
    by (auto simp: less_Suc_eq)
  from b idn pb have b': "\<forall>c \<in> set (put_category ?cats doc). c_id c < Suc (nextId s)
      \<and> (\<forall>p. c_parentCategory c = Some p \<longrightarrow> p < Suc (nextId s))"
    by (auto simp: set_put_category less_Suc_eq)
  from d ac' b' show ?thesis
    by (simp add: tree_inv_def s' distinct_put_category)
qed

lemma validateParent_sound:
  assumes d: "distinct (map c_id cats)" and i: "c_id doc \<in> c_id ` set cats"
    and par: "c_parentCategory doc = Some p" and ok: "validateParent cats doc"
  shows "(p, c_id doc) \<notin> (parent_rel cats)\<^sup>*"
proof (cases "findById cats p")
  case None
  then have "p \<notin> c_id ` set cats" by (simp add: findById_None)
  with i reach_from_missing [of p "c_id doc" cats] show ?thesis by auto
next
  case (Some cur)
  from findById_Some [OF Some] have cur: "cur \<in> set cats" "c_id cur = p" by simp_all
  from ok par Some have "validateParent_loop cats (Some cur) {c_id doc}"
    by (simp add: validateParent_def)
  from loop_sound [OF this d refl cur(1), of "c_id doc"] i cur(2) show ?thesis by simp
qed

lemma tree_inv_update:
  assumes inv: "tree_inv s" and r: "updateCategory s actor i body = (r, s')"
  shows "tree_inv s'"
proof (cases r)
  case (Inl e)
  with r inv updateCategory_Inl show ?thesis by blast
next
  case (Inr doc)
  let ?cats = "categories s"
  from updateCategory_Inr [OF r [unfolded Inr]] obtain old where
    old: "findById ?cats i = Some old"
    and s': "s' = s\<lparr>categories := put_category ?cats doc\<rparr>"
    and idn: "c_id doc = i"
    and par: "c_parentCategory doc = c_parentCategory old \<or> c_parentCategory doc = None
               \<or> (\<exists>p. c_parentCategory doc = Some p \<and> p \<in> c_id ` set ?cats)"
    and vp: "c_parentCategory doc \<noteq> c_parentCategory old \<longrightarrow> validateParent ?cats doc"
    by blast
  from findById_Some [OF old] have om: "old \<in> set ?cats" and oid: "c_id old = i" by simp_all
  from inv have d: "distinct (map c_id ?cats)"
    and b: "\<forall>c \<in> set ?cats. c_id c < nextId s \<and> (\<forall>p. c_parentCategory c = Some p \<longrightarrow> p < nextId s)"
    and ac: "acyclic (parent_rel ?cats)"
    by (simp_all add: tree_inv_def)
  from om oid idn have iin: "c_id doc \<in> c_id ` set ?cats" by force
  have "(p, c_id doc) \<notin> (parent_rel ?cats)\<^sup>*" if p: "c_parentCategory doc = Some p" for p
  proof (cases "c_parentCategory doc = c_parentCategory old")
    case True
    with p om oid idn have edge: "(c_id doc, p) \<in> parent_rel ?cats"
      by (auto simp: parent_rel_def)
    show ?thesis
    proof
      assume "(p, c_id doc) \<in> (parent_rel ?cats)\<^sup>*"
      with edge have "(c_id doc, c_id doc) \<in> (parent_rel ?cats)\<^sup>+" by (rule rtrancl_into_trancl2)
      with ac show False by (simp add: acyclic_def)
    qed
  next
    case False
    with vp have "validateParent ?cats doc" by simp
    from validateParent_sound [OF d iin p this] show ?thesis .
  qed
  with ac have ac': "acyclic (parent_rel (put_category ?cats doc))"
    by (rule acyclic_put_category)
  from b om have ob: "c_id old < nextId s" "\<forall>p. c_parentCategory old = Some p \<longrightarrow> p < nextId s"
    by auto
  from par ob b have pb: "\<forall>p. c_parentCategory doc = Some p \<longrightarrow> p < nextId s"
    by auto
  from b idn oid ob pb have b': "\<forall>c \<in> set (put_category ?cats doc). c_id c < nextId s
      \<and> (\<forall>p. c_parentCategory c = Some p \<longrightarrow> p < nextId s)"
    by (auto simp: set_put_category)
  from d ac' b' show ?thesis
    by (simp add: tree_inv_def s' distinct_put_category)
qed

lemma tree_inv_delete:
  assumes inv: "tree_inv s" and r: "deleteCategory s actor i = (r, s')"
  shows "tree_inv s'"
proof -
  let ?cats = "categories s"
  have sub: "parent_rel (filter (\<lambda>c. c_id c \<noteq> i) ?cats) \<subseteq> parent_rel ?cats"
    by (auto simp: parent_rel_def)
  from inv have "acyclic (parent_rel ?cats)" by (simp add: tree_inv_def)
  from this sub have "acyclic (parent_rel (filter (\<lambda>c. c_id c \<noteq> i) ?cats))"
    by (rule acyclic_subset)
  with inv have "tree_inv (s\<lparr>categories := filter (\<lambda>c. c_id c \<noteq> i) ?cats\<rparr>)"
    by (auto simp: tree_inv_def distinct_map_filter)
  with deleteCategory_effect [OF r] inv show ?thesis by auto
qed

lemma tree_inv_handle: "tree_inv s \<Longrightarrow> tree_inv (handle s req)"
proof (cases req)
  case (CreateCategory actor body)
  assume "tree_inv s"
  from tree_inv_create [OF this, of actor body] CreateCategory show ?thesis
    by (cases "createCategory s actor body") simp
next
  case (UpdateCategory actor i body)
  assume "tree_inv s"
  from tree_inv_update [OF this, of actor i body] UpdateCategory show ?thesis
    by (cases "updateCategory s actor i body") simp
next
  case (DeleteCategory actor i)
  assume "tree_inv s"
  from tree_inv_delete [OF this, of actor i] DeleteCategory show ?thesis
    by (cases "deleteCategory s actor i") simp
qed

lemma tree_inv_foldl: "tree_inv s \<Longrightarrow> tree_inv (foldl handle s reqs)"
  by (induction reqs arbitrary: s) (simp_all add: tree_inv_handle)

lemma tree_inv_run: "tree_inv (run reqs)"
  unfolding run_def by (rule tree_inv_foldl) (simp add: tree_inv_def empty_db_def parent_rel_def acyclic_def)

lemma loop_free:
  "distinct (map c_id cats) \<Longrightarrow> acyclic (parent_rel cats) \<Longrightarrow> current = Some cur \<Longrightarrow>
   cur \<in> set cats \<Longrightarrow> (\<forall>x \<in> V. (c_id cur, x) \<notin> (parent_rel cats)\<^sup>*) \<Longrightarrow>
   validateParent_loop cats current V"
proof (induction cats current V arbitrary: cur rule: validateParent_loop.induct)
  case (1 cats current visited)
  from "1.prems"(5) have fresh: "c_id cur \<notin> visited" by auto
  show ?case
  proof (cases "parent_doc cats cur")
    case None
    with fresh "1.prems"(3) show ?thesis
      by (simp add: validateParent_loop.simps [of cats "Some cur" visited]
          validateParent_loop.simps [of cats None])
  next
    case (Some d)
    from parent_doc_Some [OF Some] have d: "d \<in> set cats" "c_parentCategory cur = Some (c_id d)"
      by simp_all
    with "1.prems"(4) have edge: "(c_id cur, c_id d) \<in> parent_rel cats"
      by (auto simp: parent_rel_def)
    have "\<forall>x \<in> insert (c_id cur) visited. (c_id d, x) \<notin> (parent_rel cats)\<^sup>*"
    proof
      fix x assume x: "x \<in> insert (c_id cur) visited"
      show "(c_id d, x) \<notin> (parent_rel cats)\<^sup>*"
      proof
        assume reach: "(c_id d, x) \<in> (parent_rel cats)\<^sup>*"
        show False
        proof (cases "x = c_id cur")
          case True
          with edge reach have "(c_id cur, c_id cur) \<in> (parent_rel cats)\<^sup>+"
            by (simp add: rtrancl_into_trancl2)
          with "1.prems"(2) show False by (simp add: acyclic_def)
        next
          case False
          with x have "x \<in> visited" by simp
          moreover from edge reach have "(c_id cur, x) \<in> (parent_rel cats)\<^sup>*"
            by (rule converse_rtrancl_into_rtrancl)
          ultimately show False using "1.prems"(5) by blast
        qed
      qed
    qed
    from "1.IH" [OF "1.prems"(3) fresh "1.prems"(1,2) Some d(1) this]
    have "validateParent_loop cats (parent_doc cats cur) (insert (c_id cur) visited)" .
    with fresh "1.prems"(3) show ?thesis
      by (simp add: validateParent_loop.simps [of cats "Some cur" visited])
  qed
qed

lemma validateParent_iff:
  assumes d: "distinct (map c_id cats)" and ac: "acyclic (parent_rel cats)"
    and c: "c \<in> set cats"
  shows "validateParent cats (c\<lparr>c_parentCategory := Some p\<rparr>)
           \<longleftrightarrow> (p, c_id c) \<notin> (parent_rel cats)\<^sup>*"
proof
  assume ok: "validateParent cats (c\<lparr>c_parentCategory := Some p\<rparr>)"
  from c have "c_id (c\<lparr>c_parentCategory := Some p\<rparr>) \<in> c_id ` set cats" by simp
  from validateParent_sound [OF d this _ ok, of p] show "(p, c_id c) \<notin> (parent_rel cats)\<^sup>*"
    by simp
next
  assume free: "(p, c_id c) \<notin> (parent_rel cats)\<^sup>*"
  show "validateParent cats (c\<lparr>c_parentCategory := Some p\<rparr>)"
  proof (cases "findById cats p")
    case None
    then show ?thesis
      by (simp add: validateParent_def validateParent_loop.simps [of cats None])
  next
    case (Some cur)
    from findById_Some [OF Some] have cur: "cur \<in> set cats" "c_id cur = p" by simp_all
    from free cur(2) have "\<forall>x \<in> {c_id c}. (c_id cur, x) \<notin> (parent_rel cats)\<^sup>*" by simp
    from loop_free [OF d ac refl cur(1) this] Some show ?thesis
      by (simp add: validateParent_def)
  qed
qed

lemma circular_update_refused:
  assumes inv: "tree_inv s"
    and old: "findById (categories s) i = Some old"
    and body: "b_parentCategory body = Some (Some p)"
    and reach: "(p, i) \<in> (parent_rel (categories s))\<^sup>*"
    and allowed: "u_role actor = Admin \<or> c_createdBy old = u_id actor"
    and valid: "validate_category (assign_fields actor body old)"
  shows "updateCategory s actor i body = (Inl ReferenciaCircular, s)"
proof -
  let ?cats = "categories s"
  let ?edited = "(assign_fields actor body old)\<lparr>c_parentCategory := Some p\<rparr>"
  from inv have d: "distinct (map c_id ?cats)" and ac: "acyclic (parent_rel ?cats)"
    by (simp_all add: tree_inv_def)
  from findById_Some [OF old] have om: "old \<in> set ?cats" and oid: "c_id old = i" by simp_all
  have pin: "p \<in> c_id ` set ?cats"
  proof (rule ccontr)
    assume "p \<notin> c_id ` set ?cats"
    from reach_from_missing [OF reach this] om oid this show False by auto
  qed
  then obtain cur where fp: "findById ?cats p = Some cur"
    using findById_None [of ?cats p] by (cases "findById ?cats p") auto
  from findById_Some [OF fp] have cur: "cur \<in> set ?cats" "c_id cur = p" by simp_all
  from fp body have ap: "assign_parent ?cats body (assign_fields actor body old) = Inr ?edited"
    by (simp add: assign_parent_def)
  have changed: "c_parentCategory old \<noteq> Some p"
  proof
    assume "c_parentCategory old = Some p"
    with om oid have "(i, p) \<in> parent_rel ?cats" by (auto simp: parent_rel_def)
    with reach have "(i, i) \<in> (parent_rel ?cats)\<^sup>+" by (simp add: rtrancl_into_trancl2)
    with ac show False by (simp add: acyclic_def)
  qed
  from om oid have "{i} \<subseteq> c_id ` set ?cats" by force
  from loop_complete [OF d refl cur(1) this, of i] reach cur(2)
  have "\<not> validateParent_loop ?cats (Some cur) {i}" by simp
  with fp have nv: "\<not> validateParent ?cats doc"
    if "c_id doc = i" "c_parentCategory doc = Some p" for doc
    using that by (simp add: validateParent_def)
  from valid have v: "validate_category ?edited"
    by (simp add: validate_category_def)
  have "save_category ?cats (Some old) ?edited = Inl CircularReference"
    using v changed nv [of ?edited]
      nv [of "?edited\<lparr>c_slug := generateSlug ?cats (c_id ?edited) (c_name ?edited)\<rparr>"]
    by (simp add: save_category_def Let_def assign_fields_keeps oid)
  with old allowed ap show ?thesis
    by (auto simp: updateCategory_def)
qed

definition mk_body :: "string \<Rightarrow> string \<Rightarrow> objectId option option \<Rightarrow> category_body" where
  "mk_body name description parent =
     \<lparr>b_name = Some name, b_description = Some description, b_color = None, b_icon = None,
      b_parentCategory = parent, b_order = None, b_metadata = None, b_isActive = None\<rparr>"

definition ex_tree :: "request list" where
  "ex_tree =
     [CreateCategory ex_editor (mk_body ''Initial Access'' ''Entry vectors'' None),
      CreateCategory ex_editor (mk_body ''Phishing'' ''Mail lures'' (Some (Some 0)))]"

lemma ex_tree_run:
  "run ex_tree =
     \<lparr>categories =
        [\<lparr>c_id = 0, c_name = ''Initial Access'', c_slug = ''initial-access'',
          c_description = ''Entry vectors'', c_color = ''#3498db'', c_icon = ''folder'',
          c_parentCategory = None, c_order = 0, c_isActive = True,
          c_metadata = empty_metadata, c_createdBy = 7\<rparr>,
         \<lparr>c_id = 1, c_name = ''Phishing'', c_slug = ''phishing'',
          c_description = ''Mail lures'', c_color = ''#3498db'', c_icon = ''folder'',
          c_parentCategory = Some 0, c_order = 0, c_isActive = True,
          c_metadata = empty_metadata, c_createdBy = 7\<rparr>],
      techniques = [], files = {}, nextId = 2\<rparr>"
  by code_simp

text \<open>
  Claim C1. The walk of \<^verbatim>\<open>validateParent\<close> starts at the proposed parent with the category's
  own id as the only visited id, and throws when it stands on a visited id. For the database
  after any sequence of category requests (create, update, delete):
  the parent relation has no cycle, so no category is its own ancestor;
  \<^verbatim>\<open>validateParent\<close> on a stored category with a proposed parent \<open>p\<close> returns exactly when
  the category is not reachable from \<open>p\<close> along parent references;
  and an update by a permitted caller with valid fields that proposes a parent from which
  the category is reachable answers 400 \<open>ReferenciaCircular\<close> and leaves the database as it
  was.
\<close>

theorem parent_chain_acyclic:
  "acyclic (parent_rel (categories (run reqs)))
   \<and> (\<forall>c \<in> set (categories (run reqs)). \<forall>p.
         validateParent (categories (run reqs)) (c\<lparr>c_parentCategory := Some p\<rparr>)
           \<longleftrightarrow> (p, c_id c) \<notin> (parent_rel (categories (run reqs)))\<^sup>*)
   \<and> (\<forall>actor i body p old.
         findById (categories (run reqs)) i = Some old
         \<and> b_parentCategory body = Some (Some p)
         \<and> (p, i) \<in> (parent_rel (categories (run reqs)))\<^sup>*
         \<and> (u_role actor = Admin \<or> c_createdBy old = u_id actor)
         \<and> validate_category (assign_fields actor body old)
         \<longrightarrow> updateCategory (run reqs) actor i body = (Inl ReferenciaCircular, run reqs))"
proof -
  have inv: "tree_inv (run reqs)" by (rule tree_inv_run)
  then have d: "distinct (map c_id (categories (run reqs)))"
    and ac: "acyclic (parent_rel (categories (run reqs)))"
    by (simp_all add: tree_inv_def)
  from ac validateParent_iff [OF d ac] circular_update_refused [OF inv]
  show ?thesis by blast
qed

definition ex_root :: category where
  "ex_root =
     \<lparr>c_id = 0, c_name = ''Initial Access'', c_slug = ''initial-access'',
      c_description = ''Entry vectors'', c_color = ''#3498db'', c_icon = ''folder'',
      c_parentCategory = None, c_order = 0, c_isActive = True,
      c_metadata = empty_metadata, c_createdBy = 7\<rparr>"

definition ex_move :: category_body where
  "ex_move =
     \<lparr>b_name = None, b_description = None, b_color = None, b_icon = None,
      b_parentCategory = Some (Some 1), b_order = None, b_metadata = None, b_isActive = None\<rparr>"

theorem parent_chain_acyclic_witness:
  "acyclic (parent_rel (categories (run ex_tree)))
   \<and> ex_root \<in> set (categories (run ex_tree))
   \<and> (1, c_id ex_root) \<in> (parent_rel (categories (run ex_tree)))\<^sup>*
   \<and> \<not> validateParent (categories (run ex_tree)) (ex_root\<lparr>c_parentCategory := Some 1\<rparr>)
   \<and> findById (categories (run ex_tree)) 0 = Some ex_root
   \<and> b_parentCategory ex_move = Some (Some 1)
   \<and> c_createdBy ex_root = u_id ex_editor
   \<and> validate_category (assign_fields ex_editor ex_move ex_root)
   \<and> updateCategory (run ex_tree) ex_editor 0 ex_move = (Inl ReferenciaCircular, run ex_tree)"
proof -
  have mem: "ex_root \<in> set (categories (run ex_tree))"
    by (simp add: ex_tree_run ex_root_def)
  have "(c_id (categories (run ex_tree) ! 1), 0) \<in> parent_rel (categories (run ex_tree))"
    by (rule parent_rel_member) (simp_all add: ex_tree_run)
  then have "(1, 0) \<in> parent_rel (categories (run ex_tree))"
    by (simp add: ex_tree_run)
  then have reach: "(1, c_id ex_root) \<in> (parent_rel (categories (run ex_tree)))\<^sup>*"
    by (simp add: ex_root_def)
  have found: "findById (categories (run ex_tree)) 0 = Some ex_root"
    by (simp add: ex_tree_run ex_root_def findById_def)
  have body: "b_parentCategory ex_move = Some (Some 1)"
    by (simp add: ex_move_def)
  have owner: "c_createdBy ex_root = u_id ex_editor"
    by (simp add: ex_root_def ex_editor_def)
  have valid: "validate_category (assign_fields ex_editor ex_move ex_root)"
    by (simp add: validate_category_def assign_fields_def ex_move_def ex_root_def
        valid_color_def is_hex_def)
  from reach have reach0: "(1, 0) \<in> (parent_rel (categories (run ex_tree)))\<^sup>*"
    by (simp add: ex_root_def)
  from parent_chain_acyclic [of ex_tree] mem reach found body owner valid reach0
  show ?thesis by blast
qed

section \<open>The full path of a category\<close>

text \<open>Two categories that name each other as parent. No sequence of requests handled one
  after the other leaves such a store. It is the store that two updates leave when each is
  validated before the other is written: against \<open>ex_pair\<close>, the save that gives Alpha the
  parent Beta and the save that gives Beta the parent Alpha both pass \<^verbatim>\<open>validateParent\<close>.\<close>

definition ex_pair :: "category list" where
  "ex_pair = [mk_category 1 ''Alpha'' None True 7, mk_category 2 ''Beta'' None True 7]"

definition ex_ring :: "category list" where
  "ex_ring = [mk_category 1 ''Alpha'' (Some 2) True 7, mk_category 2 ''Beta'' (Some 1) True 7]"

lemma ex_ring_written:
  "save_category ex_pair (Some (ex_pair ! 0)) ((ex_pair ! 0)\<lparr>c_parentCategory := Some 2\<rparr>)
     = Inr (ex_ring ! 0)"
  "save_category ex_pair (Some (ex_pair ! 1)) ((ex_pair ! 1)\<lparr>c_parentCategory := Some 1\<rparr>)
     = Inr (ex_ring ! 1)"
  "put_category (put_category ex_pair (ex_ring ! 0)) (ex_ring ! 1) = ex_ring"
  by code_simp+









definition ex_leaf :: category where
  "ex_leaf =
     \<lparr>c_id = 1, c_name = ''Phishing'', c_slug = ''phishing'',
      c_description = ''Mail lures'', c_color = ''#3498db'', c_icon = ''folder'',
      c_parentCategory = Some 0, c_order = 0, c_isActive = True,
      c_metadata = empty_metadata, c_createdBy = 7\<rparr>"


section \<open>Slugs\<close>

lemma probe_slug_free: "\<not> slug_taken cats self (probe_slug cats self base slug counter)"
proof (induction cats self base slug counter rule: probe_slug.induct)
  case (1 cats self base slug counter)
  show ?case
  proof (cases "slug_taken cats self slug")
    case True
    with "1.IH" show ?thesis by (simp add: probe_slug.simps [of cats self base slug counter])
  next
    case False
    then show ?thesis by (simp add: probe_slug.simps [of cats self base slug counter])
  qed
qed

lemma probe_slug_form:
  "(\<not> slug_taken cats self slug \<and> probe_slug cats self base slug counter = slug)
   \<or> (slug_taken cats self slug
       \<and> (\<exists>k \<ge> counter. probe_slug cats self base slug counter = suffixed base k
             \<and> (\<forall>j. counter \<le> j \<and> j < k \<longrightarrow> slug_taken cats self (suffixed base j))))"
proof (induction cats self base slug counter rule: probe_slug.induct)
  case (1 cats self base slug counter)
  show ?case
  proof (cases "slug_taken cats self slug")
    case False
    then show ?thesis by (simp add: probe_slug.simps [of cats self base slug counter])
  next
    case True
    from True have unfold: "probe_slug cats self base slug counter
        = probe_slug cats self base (suffixed base counter) (Suc counter)"
      by (simp add: probe_slug.simps [of cats self base slug counter])
    from "1.IH" [OF True] show ?thesis
    proof
      assume "\<not> slug_taken cats self (suffixed base counter)
        \<and> probe_slug cats self base (suffixed base counter) (Suc counter) = suffixed base counter"
      with True unfold show ?thesis by auto
    next
      assume "slug_taken cats self (suffixed base counter)
        \<and> (\<exists>k \<ge> Suc counter.
              probe_slug cats self base (suffixed base counter) (Suc counter) = suffixed base k
              \<and> (\<forall>j. Suc counter \<le> j \<and> j < k \<longrightarrow> slug_taken cats self (suffixed base j)))"
      then obtain k where t: "slug_taken cats self (suffixed base counter)"
        and k: "Suc counter \<le> k"
        "probe_slug cats self base (suffixed base counter) (Suc counter) = suffixed base k"
        "\<forall>j. Suc counter \<le> j \<and> j < k \<longrightarrow> slug_taken cats self (suffixed base j)"
        by blast
      have "\<forall>j. counter \<le> j \<and> j < k \<longrightarrow> slug_taken cats self (suffixed base j)"
      proof (intro allI impI)
        fix j assume "counter \<le> j \<and> j < k"
        then have "j = counter \<or> (Suc counter \<le> j \<and> j < k)" by auto
        with t k(3) show "slug_taken cats self (suffixed base j)" by auto
      qed
      with True unfold k(1,2) show ?thesis
        by (intro disjI2 conjI exI [of _ k]) simp_all
    qed
  qed
qed

lemma generateSlug_form:
  "\<not> slug_taken cats self (generateSlug cats self name)
   \<and> ((\<not> slug_taken cats self (baseSlug name) \<and> generateSlug cats self name = baseSlug name)
      \<or> (slug_taken cats self (baseSlug name)
          \<and> (\<exists>k \<ge> 1. generateSlug cats self name = suffixed (baseSlug name) k
                \<and> (\<forall>j. 1 \<le> j \<and> j < k \<longrightarrow> slug_taken cats self (suffixed (baseSlug name) j)))))"
  unfolding generateSlug_def
  using probe_slug_free [of cats self "baseSlug name" "baseSlug name" 1]
    probe_slug_form [of cats self "baseSlug name" "baseSlug name" 1]
  by blast

lemma distinct_slug_replace:
  "distinct (map c_id cats) \<Longrightarrow> distinct (map c_slug cats) \<Longrightarrow>
   \<not> slug_taken cats (c_id doc) (c_slug doc) \<Longrightarrow>
   distinct (map c_slug (map (\<lambda>c. if c_id c = c_id doc then doc else c) cats))"
proof (induction cats)
  case Nil
  then show ?case by simp
next
  case (Cons c cs)
  let ?f = "\<lambda>c. if c_id c = c_id doc then doc else c"
  from Cons.prems have free: "\<not> slug_taken cs (c_id doc) (c_slug doc)"
    by (auto simp: slug_taken_def)
  from Cons.prems have dcs: "distinct (map c_id cs)" "distinct (map c_slug cs)" by simp_all
  from Cons.IH [OF dcs free] have IH: "distinct (map c_slug (map ?f cs))" .
  have "c_slug (?f c) \<notin> set (map c_slug (map ?f cs))"
  proof
    assume "c_slug (?f c) \<in> set (map c_slug (map ?f cs))"
    then obtain e where e: "e \<in> set cs" "c_slug (?f e) = c_slug (?f c)" by auto
    from e(1) have "c_id e \<in> c_id ` set cs" "c_slug e \<in> c_slug ` set cs"
      by (simp_all only: imageI)
    with Cons.prems(1,2) have ne: "c_id e \<noteq> c_id c" and ns: "c_slug e \<noteq> c_slug c"
      by auto
    show False
    proof (cases "c_id c = c_id doc")
      case True
      with ne e(2) have "c_slug e = c_slug doc" "c_id e \<noteq> c_id doc" by auto
      with e(1) Cons.prems(3) show False by (auto simp: slug_taken_def)
    next
      case False
      show False
      proof (cases "c_id e = c_id doc")
        case True
        with False e(2) have "c_slug c = c_slug doc" by simp
        with False Cons.prems(3) show False by (auto simp: slug_taken_def)
      next
        case False
        with \<open>c_id c \<noteq> c_id doc\<close> e(2) ns show False by simp
      qed
    qed
  qed
  with IH show ?case by simp
qed

lemma distinct_slug_put:
  assumes "distinct (map c_id cats)" "distinct (map c_slug cats)"
    "\<not> slug_taken cats (c_id doc) (c_slug doc)"
  shows "distinct (map c_slug (put_category cats doc))"
proof (cases "c_id doc \<in> c_id ` set cats")
  case True
  with distinct_slug_replace [OF assms] show ?thesis by (simp add: put_category_def)
next
  case False
  have "c_slug doc \<notin> c_slug ` set cats"
  proof
    assume "c_slug doc \<in> c_slug ` set cats"
    then obtain c where c: "c \<in> set cats" "c_slug c = c_slug doc" by auto
    from c(1) have "c_id c \<in> c_id ` set cats" by (rule imageI)
    with False have "c_id c \<noteq> c_id doc" by auto
    with c assms(3) show False by (auto simp: slug_taken_def)
  qed
  with False assms(2) show ?thesis by (simp add: put_category_def)
qed

lemma slugs_create:
  assumes inv: "tree_inv s" and sl: "distinct (map c_slug (categories s))"
    and r: "createCategory s actor body = (r, s')"
  shows "distinct (map c_slug (categories s'))"
proof (cases r)
  case (Inl e)
  with r sl createCategory_Inl show ?thesis by blast
next
  case (Inr doc)
  from createCategory_Inr [OF r [unfolded Inr]] have
    s': "s' = s\<lparr>categories := put_category (categories s) doc, nextId := Suc (nextId s)\<rparr>"
    and idn: "c_id doc = nextId s"
    and slug: "c_slug doc = generateSlug (categories s) (nextId s) (c_name doc)"
    by simp_all
  from generateSlug_form [of "categories s" "nextId s" "c_name doc"] idn slug
  have "\<not> slug_taken (categories s) (c_id doc) (c_slug doc)" by simp
  with inv sl have "distinct (map c_slug (put_category (categories s) doc))"
    by (intro distinct_slug_put) (simp_all add: tree_inv_def)
  with s' show ?thesis by simp
qed

lemma slugs_update:
  assumes inv: "tree_inv s" and sl: "distinct (map c_slug (categories s))"
    and r: "updateCategory s actor i body = (r, s')"
  shows "distinct (map c_slug (categories s'))"
proof (cases r)
  case (Inl e)
  with r sl updateCategory_Inl show ?thesis by blast
next
  case (Inr doc)
  let ?cats = "categories s"
  from updateCategory_Inr [OF r [unfolded Inr]] obtain old where
    old: "findById ?cats i = Some old"
    and s': "s' = s\<lparr>categories := put_category ?cats doc\<rparr>"
    and idn: "c_id doc = i"
    and slug: "if c_name doc \<noteq> c_name old
             then c_slug doc = generateSlug ?cats i (c_name doc)
             else c_slug doc = c_slug old"
    by blast
  from findById_Some [OF old] have om: "old \<in> set ?cats" and oid: "c_id old = i" by simp_all
  have "\<not> slug_taken ?cats (c_id doc) (c_slug doc)"
  proof (cases "c_name doc \<noteq> c_name old")
    case True
    with slug generateSlug_form [of ?cats i "c_name doc"] idn show ?thesis by simp
  next
    case False
    with slug have same: "c_slug doc = c_slug old" by simp
    show ?thesis
    proof
      assume "slug_taken ?cats (c_id doc) (c_slug doc)"
      then obtain c where c: "c \<in> set ?cats" "c_slug c = c_slug old" "c_id c \<noteq> i"
        by (auto simp: slug_taken_def same idn)
      from sl have "inj_on c_slug (set ?cats)" by (simp add: distinct_map)
      from inj_onD [OF this c(2) c(1) om] c(3) oid show False by simp
    qed
  qed
  with inv sl have "distinct (map c_slug (put_category ?cats doc))"
    by (intro distinct_slug_put) (simp_all add: tree_inv_def)
  with s' show ?thesis by simp
qed

lemma slugs_delete:
  assumes sl: "distinct (map c_slug (categories s))"
    and r: "deleteCategory s actor i = (r, s')"
  shows "distinct (map c_slug (categories s'))"
  using deleteCategory_effect [OF r] sl by (auto simp: distinct_map_filter)

lemma slugs_handle:
  assumes "tree_inv s" "distinct (map c_slug (categories s))"
  shows "distinct (map c_slug (categories (handle s req)))"
proof (cases req)
  case (CreateCategory actor body)
  from slugs_create [OF assms, of actor body] CreateCategory show ?thesis
    by (cases "createCategory s actor body") simp
next
  case (UpdateCategory actor i body)
  from slugs_update [OF assms, of actor i body] UpdateCategory show ?thesis
    by (cases "updateCategory s actor i body") simp
next
  case (DeleteCategory actor i)
  from slugs_delete [OF assms(2), of actor i] DeleteCategory show ?thesis
    by (cases "deleteCategory s actor i") simp
qed

lemma slugs_foldl:
  "tree_inv s \<Longrightarrow> distinct (map c_slug (categories s)) \<Longrightarrow>
   distinct (map c_slug (categories (foldl handle s reqs)))"
  by (induction reqs arbitrary: s) (simp_all add: tree_inv_handle slugs_handle)

lemma slugs_run: "distinct (map c_slug (categories (run reqs)))"
proof -
  have "tree_inv empty_db" by (simp add: tree_inv_def empty_db_def parent_rel_def acyclic_def)
  moreover have "distinct (map c_slug (categories empty_db))" by (simp add: empty_db_def)
  ultimately show ?thesis unfolding run_def by (rule slugs_foldl)
qed

lemma slug_taken_image: "slug_taken cats self x \<Longrightarrow> x \<in> c_slug ` set cats"
proof -
  assume "slug_taken cats self x"
  then obtain c where "c \<in> set cats" "c_slug c = x" by (auto simp: slug_taken_def)
  then show ?thesis by (simp add: rev_image_eqI)
qed

lemma suffixed_not_base: "suffixed base k \<noteq> base"
  by (simp add: suffixed_def)

lemma second_slug:
  assumes inv: "tree_inv s"
    and c1: "createCategory s actor1 body1 = (Inr d1, s1)"
    and c2: "createCategory s1 actor2 body2 = (Inr d2, s2)"
    and same: "c_name d2 = c_name d1"
  shows "c_slug d2 \<noteq> c_slug d1
         \<and> (\<exists>k \<ge> 1. c_slug d2 = suffixed (baseSlug (c_name d1)) k
               \<and> \<not> slug_taken (categories s1) (c_id d2) (suffixed (baseSlug (c_name d1)) k)
               \<and> (\<forall>j. 1 \<le> j \<and> j < k \<longrightarrow>
                     slug_taken (categories s1) (c_id d2) (suffixed (baseSlug (c_name d1)) j)))
         \<and> (baseSlug (c_name d1) \<notin> c_slug ` set (categories s)
              \<and> suffixed (baseSlug (c_name d1)) 1 \<notin> c_slug ` set (categories s)
            \<longrightarrow> c_slug d1 = baseSlug (c_name d1)
                \<and> c_slug d2 = suffixed (baseSlug (c_name d1)) 1)"
proof -
  let ?cats = "categories s" and ?base = "baseSlug (c_name d1)"
  from createCategory_Inr [OF c1] have
    s1: "s1 = s\<lparr>categories := put_category ?cats d1, nextId := Suc (nextId s)\<rparr>"
    and id1: "c_id d1 = nextId s"
    and slug1: "c_slug d1 = generateSlug ?cats (nextId s) (c_name d1)"
    by simp_all
  from createCategory_Inr [OF c2] s1 same have
    id2: "c_id d2 = Suc (nextId s)"
    and slug2: "c_slug d2 = generateSlug (put_category ?cats d1) (Suc (nextId s)) (c_name d1)"
    by simp_all
  let ?cats1 = "put_category ?cats d1"
  from inv have below: "\<forall>c \<in> set ?cats. c_id c < nextId s" by (simp add: tree_inv_def)
  then have old_ids: "\<forall>c \<in> set ?cats. c_id c \<noteq> nextId s \<and> c_id c \<noteq> Suc (nextId s)" by auto
  with id1 have set1: "set ?cats1 = insert d1 (set ?cats)"
    by (auto simp: set_put_category)
  from generateSlug_form [of ?cats "nextId s" "c_name d1"] slug1 have
    free1: "\<not> slug_taken ?cats (nextId s) (c_slug d1)"
    and form1: "(\<not> slug_taken ?cats (nextId s) ?base \<and> c_slug d1 = ?base)
                \<or> slug_taken ?cats (nextId s) ?base"
    by auto
  have taken_base: "slug_taken ?cats1 (Suc (nextId s)) ?base"
  proof -
    from form1 show ?thesis
    proof
      assume "\<not> slug_taken ?cats (nextId s) ?base \<and> c_slug d1 = ?base"
      with id1 set1 show ?thesis by (auto simp: slug_taken_def)
    next
      assume "slug_taken ?cats (nextId s) ?base"
      with old_ids set1 show ?thesis by (auto simp: slug_taken_def)
    qed
  qed
  from generateSlug_form [of ?cats1 "Suc (nextId s)" "c_name d1"] slug2 taken_base
  obtain k where k: "1 \<le> k" "c_slug d2 = suffixed ?base k"
    and free2: "\<not> slug_taken ?cats1 (Suc (nextId s)) (c_slug d2)"
    and below_k: "\<forall>j. 1 \<le> j \<and> j < k \<longrightarrow> slug_taken ?cats1 (Suc (nextId s)) (suffixed ?base j)"
    by auto
  from free2 set1 id1 have differ: "c_slug d2 \<noteq> c_slug d1"
    by (auto simp: slug_taken_def)
  have clean: "c_slug d1 = ?base \<and> c_slug d2 = suffixed ?base 1"
    if nb: "?base \<notin> c_slug ` set ?cats" and n1: "suffixed ?base 1 \<notin> c_slug ` set ?cats"
  proof -
    from nb slug_taken_image [of ?cats "nextId s" ?base]
    have "\<not> slug_taken ?cats (nextId s) ?base" by blast
    with form1 have b1: "c_slug d1 = ?base" by simp
    have "\<not> slug_taken ?cats1 (Suc (nextId s)) (suffixed ?base 1)"
    proof
      assume "slug_taken ?cats1 (Suc (nextId s)) (suffixed ?base 1)"
      then obtain c where c: "c \<in> set ?cats1" "c_slug c = suffixed ?base 1"
        by (auto simp: slug_taken_def)
      with set1 b1 suffixed_not_base [of ?base 1] have "c \<in> set ?cats" by auto
      with c(2) have "suffixed ?base 1 \<in> c_slug ` set ?cats" by (simp add: rev_image_eqI)
      with n1 show False by simp
    qed
    with below_k k(1) have "\<not> 1 < k" by auto
    with k have "k = 1" by simp
    with k(2) b1 show ?thesis by simp
  qed
  from differ k free2 below_k clean s1 id2 show ?thesis
    by (intro conjI exI [of _ k] impI) simp_all
qed

text \<open>Three creations, the last two with the same name, the first with a name whose slug is
  the suffixed form of theirs.\<close>

definition ex_foo :: "request list" where
  "ex_foo =
     [CreateCategory ex_editor (mk_body ''Foo 1'' ''About Foo 1'' None),
      CreateCategory ex_editor (mk_body ''Foo'' ''About Foo'' None),
      CreateCategory ex_editor (mk_body ''Foo'' ''About Foo'' None)]"

text \<open>
  Claim C4, as stated, fails: of two categories created with the same name the second need
  not be suffixed \<open>-1\<close>. After a category named "Foo 1" (slug \<open>foo-1\<close>), two categories
  named "Foo" get the slugs \<open>foo\<close> and \<open>foo-2\<close>.
\<close>

theorem second_slug_counterexample:
  "map c_name (categories (run ex_foo)) = [''Foo 1'', ''Foo'', ''Foo'']
   \<and> map c_slug (categories (run ex_foo)) = [''foo-1'', ''foo'', ''foo-2'']"
  by code_simp

text \<open>
  Claim C4, amended. For the database after any sequence of category requests:
  the slugs of the stored categories are pairwise distinct;
  a created category's slug is the lower-cased name with every run of characters outside
  a-z0-9 replaced by one hyphen and a leading and a trailing hyphen removed (\<open>baseSlug\<close>),
  if no other category has it, and otherwise that base with the suffix \<open>-k\<close> for the least
  \<open>k \<ge> 1\<close> whose suffixed slug no other category has;
  of two categories created one after the other with the same name, the second has a slug
  different from the first's, the base suffixed with the least free \<open>k \<ge> 1\<close>, which is
  \<open>-1\<close> when neither the base nor the base suffixed \<open>-1\<close> was in use before the two;
  and an update regenerates the slug when it changes the name and keeps the stored slug
  otherwise.
\<close>

theorem slug_generation:
  "distinct (map c_slug (categories (run reqs)))
   \<and> (\<forall>actor body doc s'.
         createCategory (run reqs) actor body = (Inr doc, s') \<longrightarrow>
           c_slug doc = generateSlug (categories (run reqs)) (c_id doc) (c_name doc)
           \<and> \<not> slug_taken (categories (run reqs)) (c_id doc) (c_slug doc)
           \<and> (c_slug doc = baseSlug (c_name doc)
               \<or> (slug_taken (categories (run reqs)) (c_id doc) (baseSlug (c_name doc))
                   \<and> (\<exists>k \<ge> 1. c_slug doc = suffixed (baseSlug (c_name doc)) k
                         \<and> (\<forall>j. 1 \<le> j \<and> j < k \<longrightarrow>
                               slug_taken (categories (run reqs)) (c_id doc)
                                 (suffixed (baseSlug (c_name doc)) j))))))
   \<and> (\<forall>actor1 body1 d1 s1 actor2 body2 d2 s2.
         createCategory (run reqs) actor1 body1 = (Inr d1, s1)
         \<and> createCategory s1 actor2 body2 = (Inr d2, s2)
         \<and> c_name d2 = c_name d1 \<longrightarrow>
           c_slug d2 \<noteq> c_slug d1
           \<and> (\<exists>k \<ge> 1. c_slug d2 = suffixed (baseSlug (c_name d1)) k
                 \<and> \<not> slug_taken (categories s1) (c_id d2) (suffixed (baseSlug (c_name d1)) k)
                 \<and> (\<forall>j. 1 \<le> j \<and> j < k \<longrightarrow>
                       slug_taken (categories s1) (c_id d2) (suffixed (baseSlug (c_name d1)) j)))
           \<and> (baseSlug (c_name d1) \<notin> c_slug ` set (categories (run reqs))
                \<and> suffixed (baseSlug (c_name d1)) 1 \<notin> c_slug ` set (categories (run reqs))
              \<longrightarrow> c_slug d1 = baseSlug (c_name d1)
                  \<and> c_slug d2 = suffixed (baseSlug (c_name d1)) 1))
   \<and> (\<forall>actor i body old doc s'.
         findById (categories (run reqs)) i = Some old
         \<and> updateCategory (run reqs) actor i body = (Inr doc, s') \<longrightarrow>
           (if c_name doc \<noteq> c_name old
            then c_slug doc = generateSlug (categories (run reqs)) i (c_name doc)
            else c_slug doc = c_slug old))"
proof (intro conjI allI impI)
  show "distinct (map c_slug (categories (run reqs)))" by (rule slugs_run)
next
  fix actor body doc s'
  assume c: "createCategory (run reqs) actor body = (Inr doc, s')"
  from createCategory_Inr [OF c] have
    idn: "c_id doc = nextId (run reqs)"
    and slug: "c_slug doc = generateSlug (categories (run reqs)) (nextId (run reqs)) (c_name doc)"
    by simp_all
  from slug idn show "c_slug doc = generateSlug (categories (run reqs)) (c_id doc) (c_name doc)"
    by simp
  from generateSlug_form [of "categories (run reqs)" "nextId (run reqs)" "c_name doc"] slug idn
  show "\<not> slug_taken (categories (run reqs)) (c_id doc) (c_slug doc)" by simp
  from generateSlug_form [of "categories (run reqs)" "nextId (run reqs)" "c_name doc"] slug idn
  show "c_slug doc = baseSlug (c_name doc)
               \<or> (slug_taken (categories (run reqs)) (c_id doc) (baseSlug (c_name doc))
                   \<and> (\<exists>k \<ge> 1. c_slug doc = suffixed (baseSlug (c_name doc)) k
                         \<and> (\<forall>j. 1 \<le> j \<and> j < k \<longrightarrow>
                               slug_taken (categories (run reqs)) (c_id doc)
                                 (suffixed (baseSlug (c_name doc)) j))))"
    by auto
next
  fix actor1 body1 d1 s1 actor2 body2 d2 s2
  assume a: "createCategory (run reqs) actor1 body1 = (Inr d1, s1)
         \<and> createCategory s1 actor2 body2 = (Inr d2, s2)
         \<and> c_name d2 = c_name d1"
  then have c1: "createCategory (run reqs) actor1 body1 = (Inr d1, s1)"
    and c2: "createCategory s1 actor2 body2 = (Inr d2, s2)"
    and same: "c_name d2 = c_name d1" by simp_all
  note second = second_slug [OF tree_inv_run c1 c2 same]
  from second show "c_slug d2 \<noteq> c_slug d1" by blast
  from second show "\<exists>k \<ge> 1. c_slug d2 = suffixed (baseSlug (c_name d1)) k
                 \<and> \<not> slug_taken (categories s1) (c_id d2) (suffixed (baseSlug (c_name d1)) k)
                 \<and> (\<forall>j. 1 \<le> j \<and> j < k \<longrightarrow>
                       slug_taken (categories s1) (c_id d2) (suffixed (baseSlug (c_name d1)) j))"
    by blast
  {
    assume "baseSlug (c_name d1) \<notin> c_slug ` set (categories (run reqs))
                \<and> suffixed (baseSlug (c_name d1)) 1 \<notin> c_slug ` set (categories (run reqs))"
    with second show "c_slug d1 = baseSlug (c_name d1)" by blast
  }
  {
    assume "baseSlug (c_name d1) \<notin> c_slug ` set (categories (run reqs))
                \<and> suffixed (baseSlug (c_name d1)) 1 \<notin> c_slug ` set (categories (run reqs))"
    with second show "c_slug d2 = suffixed (baseSlug (c_name d1)) 1" by blast
  }
next
  fix actor i body old doc s'
  assume a: "findById (categories (run reqs)) i = Some old
         \<and> updateCategory (run reqs) actor i body = (Inr doc, s')"
  then have old: "findById (categories (run reqs)) i = Some old"
    and u: "updateCategory (run reqs) actor i body = (Inr doc, s')" by simp_all
  from updateCategory_Inr [OF u] old
  show "if c_name doc \<noteq> c_name old
            then c_slug doc = generateSlug (categories (run reqs)) i (c_name doc)
            else c_slug doc = c_slug old"
    by auto
qed

definition ex_foo1 :: category where
  "ex_foo1 = mk_category 2 ''Foo'' None True 7"

definition ex_foo2 :: category where
  "ex_foo2 = (mk_category 3 ''Foo'' None True 7)\<lparr>c_slug := ''foo-1''\<rparr>"

definition ex_db1 :: db where
  "ex_db1 = (run ex_tree)\<lparr>categories := categories (run ex_tree) @ [ex_foo1], nextId := 3\<rparr>"

definition ex_db2 :: db where
  "ex_db2 = ex_db1\<lparr>categories := categories ex_db1 @ [ex_foo2], nextId := 4\<rparr>"

theorem slug_generation_witness:
  "distinct (map c_slug (categories (run ex_tree)))
   \<and> createCategory (run ex_tree) ex_editor (mk_body ''Foo'' ''About Foo'' None) = (Inr ex_foo1, ex_db1)
   \<and> createCategory ex_db1 ex_editor (mk_body ''Foo'' ''About Foo'' None) = (Inr ex_foo2, ex_db2)
   \<and> c_name ex_foo2 = c_name ex_foo1
   \<and> baseSlug (c_name ex_foo1) \<notin> c_slug ` set (categories (run ex_tree))
   \<and> suffixed (baseSlug (c_name ex_foo1)) 1 \<notin> c_slug ` set (categories (run ex_tree))
   \<and> c_slug ex_foo1 = ''foo'' \<and> c_slug ex_foo2 = ''foo-1'' \<and> c_slug ex_foo2 \<noteq> c_slug ex_foo1
   \<and> findById (categories (run ex_tree)) 0 = Some ex_root
   \<and> fst (updateCategory (run ex_tree) ex_editor 0 ex_patch)
        = Inr (ex_root\<lparr>c_description := ''Entry vectors'', c_order := 5\<rparr>)
   \<and> c_slug (ex_root\<lparr>c_description := ''Entry vectors'', c_order := 5\<rparr>) = c_slug ex_root
   \<and> baseSlug ''  Hello,  World! '' = ''hello-world''"
proof -
  note T = slug_generation [of ex_tree]
  have c1: "createCategory (run ex_tree) ex_editor (mk_body ''Foo'' ''About Foo'' None)
              = (Inr ex_foo1, ex_db1)"
    by code_simp
  have c2: "createCategory ex_db1 ex_editor (mk_body ''Foo'' ''About Foo'' None)
              = (Inr ex_foo2, ex_db2)"
    by code_simp
  have same: "c_name ex_foo2 = c_name ex_foo1"
    by (simp add: ex_foo1_def ex_foo2_def mk_category_def)
  have base: "baseSlug (c_name ex_foo1) = ''foo''" "suffixed ''foo'' 1 = ''foo-1''"
    "suffixed ''foo'' (Suc 0) = ''foo-1''"
    by code_simp+
  have clean: "baseSlug (c_name ex_foo1) \<notin> c_slug ` set (categories (run ex_tree))"
    "suffixed (baseSlug (c_name ex_foo1)) 1 \<notin> c_slug ` set (categories (run ex_tree))"
    by (simp_all add: base ex_tree_run)
  from T [THEN conjunct2, THEN conjunct2, THEN conjunct1, rule_format, of ex_editor
      "mk_body ''Foo'' ''About Foo'' None" ex_foo1 ex_db1 ex_editor
      "mk_body ''Foo'' ''About Foo'' None" ex_foo2 ex_db2] c1 c2 same clean base
  have slugs: "c_slug ex_foo1 = ''foo''" "c_slug ex_foo2 = ''foo-1''" "c_slug ex_foo2 \<noteq> c_slug ex_foo1"
    by simp_all
  have found: "findById (categories (run ex_tree)) 0 = Some ex_root"
    by (simp add: ex_tree_run ex_root_def findById_def)
  have upd: "updateCategory (run ex_tree) ex_editor 0 ex_patch
      = (Inr (ex_root\<lparr>c_description := ''Entry vectors'', c_order := 5\<rparr>),
         (run ex_tree)\<lparr>categories :=
            [ex_root\<lparr>c_description := ''Entry vectors'', c_order := 5\<rparr>, ex_leaf]\<rparr>)"
    by code_simp
  from T [THEN conjunct2, THEN conjunct2, THEN conjunct2, rule_format, of 0 ex_root ex_editor
      ex_patch "ex_root\<lparr>c_description := ''Entry vectors'', c_order := 5\<rparr>"] found upd
  have keep: "c_slug (ex_root\<lparr>c_description := ''Entry vectors'', c_order := 5\<rparr>) = c_slug ex_root"
    by simp
  have hello: "baseSlug ''  Hello,  World! '' = ''hello-world''"
    by code_simp
  from T c1 c2 same clean slugs found upd keep hello show ?thesis
    by simp
qed

section \<open>Creating a technique without a category\<close>






section \<open>Creating a technique with a reference code in use\<close>







section \<open>Duplicating a technique\<close>

lemma duplicated_as_update:
  "duplicated t new_id userId now =
     t\<lparr>t_id := new_id, t_name := t_name t @ '' (Copia)'', t_mitreid := None,
       t_fileLocation := None, t_image := None, t_revisionHistory := [], t_isActive := True,
       t_version := ''1.0'', t_createdBy := Some userId, t_lastModifiedBy := None,
       t_status := Draft, t_createdAt := now, t_updatedAt := now\<rparr>"
  by (cases t) (simp add: duplicated_def)

definition ex_original :: technique where
  "ex_original =
     (mk_technique 2 ''Phishing'' (Some ''T1566'') (Some 1) 7)
       \<lparr>t_version := ''1.3'', t_isActive := False, t_status := Approved,
        t_image := Some ''uploads/images/lure-0.png'', t_lastModifiedBy := Some 7\<rparr>"

definition ex_copy :: technique where
  "ex_copy =
     (mk_technique 3 ''Phishing (Copia)'' None (Some 1) 7)
       \<lparr>t_description := ''About Phishing'', t_createdAt := 9, t_updatedAt := 9\<rparr>"

definition ex_archive :: db where
  "ex_archive = ex_db\<lparr>techniques := [ex_original]\<rparr>"

text \<open>
  Claim C6, as stated, fails: beside the fields it lists, the copy does not carry the
  original's reference code, version, active flag or last modifier. The original here has
  the code T1566, version 1.3, is inactive and was modified by user 7; its copy has no
  code, version 1.0, is active and has no modifier.
\<close>

theorem duplicate_resets_counterexample:
  "fst (duplicateTechnique ex_archive ex_editor 2 9) = Inr ex_copy
   \<and> t_mitreid ex_original = Some ''T1566'' \<and> t_mitreid ex_copy = None
   \<and> t_version ex_original = ''1.3'' \<and> t_version ex_copy = ''1.0''
   \<and> \<not> t_isActive ex_original \<and> t_isActive ex_copy
   \<and> t_lastModifiedBy ex_original = Some 7 \<and> t_lastModifiedBy ex_copy = None"
  by code_simp

text \<open>
  Claim C6, amended. \<^verbatim>\<open>duplicateTechnique\<close> on a stored technique whose name leaves room for
  the suffix within the 500 characters of the schema answers with a new technique that is
  the original with exactly these fields replaced: a fresh id, the name suffixed
  \<open>'' (Copia)''\<close>, no reference code, no attachment paths, an empty revision history, active
  flag true, version \<open>''1.0''\<close>, the caller as creator, no last modifier, status \<open>Draft\<close>, and
  both timestamps the time of the call. Every other field is the original's. The new
  technique is appended to the collection.
\<close>

theorem duplicateTechnique_fields:
  assumes found: "findTechniqueById (techniques s) i = Some t"
    and name: "length (t_name t) + 8 \<le> 500"
    and description: "t_description t \<noteq> []" "length (t_description t) \<le> 5000"
  shows "duplicateTechnique s actor i now =
           (Inr (t\<lparr>t_id := nextId s, t_name := t_name t @ '' (Copia)'', t_mitreid := None,
                   t_fileLocation := None, t_image := None, t_revisionHistory := [],
                   t_isActive := True, t_version := ''1.0'',
                   t_createdBy := Some (u_id actor), t_lastModifiedBy := None,
                   t_status := Draft, t_createdAt := now, t_updatedAt := now\<rparr>),
            s\<lparr>techniques := put_technique (techniques s)
                  (t\<lparr>t_id := nextId s, t_name := t_name t @ '' (Copia)'', t_mitreid := None,
                     t_fileLocation := None, t_image := None, t_revisionHistory := [],
                     t_isActive := True, t_version := ''1.0'',
                     t_createdBy := Some (u_id actor), t_lastModifiedBy := None,
                     t_status := Draft, t_createdAt := now, t_updatedAt := now\<rparr>),
              nextId := Suc (nextId s)\<rparr>)
         \<and> (nextId s \<notin> t_id ` set (techniques s) \<longrightarrow>
               put_technique (techniques s)
                  (t\<lparr>t_id := nextId s, t_name := t_name t @ '' (Copia)'', t_mitreid := None,
                     t_fileLocation := None, t_image := None, t_revisionHistory := [],
                     t_isActive := True, t_version := ''1.0'',
                     t_createdBy := Some (u_id actor), t_lastModifiedBy := None,
                     t_status := Draft, t_createdAt := now, t_updatedAt := now\<rparr>)
               = techniques s @
                  [t\<lparr>t_id := nextId s, t_name := t_name t @ '' (Copia)'', t_mitreid := None,
                     t_fileLocation := None, t_image := None, t_revisionHistory := [],
                     t_isActive := True, t_version := ''1.0'',
                     t_createdBy := Some (u_id actor), t_lastModifiedBy := None,
                     t_status := Draft, t_createdAt := now, t_updatedAt := now\<rparr>])"
proof -
  let ?d = "duplicated t (nextId s) (u_id actor) now"
  from name description have "validate_technique ?d"
    by (simp add: validate_technique_def duplicated_def)
  moreover have "\<not> mitreid_clash (techniques s) ?d"
    by (simp add: mitreid_clash_def duplicated_def)
  ultimately have "duplicate (techniques s) t (nextId s) (u_id actor) now = Inr ?d"
    by (simp add: duplicate_def save_technique_def)
  with found have "duplicateTechnique s actor i now =
      (Inr ?d, s\<lparr>techniques := put_technique (techniques s) ?d, nextId := Suc (nextId s)\<rparr>)"
    by (simp add: duplicateTechnique_def)
  moreover have "nextId s \<notin> t_id ` set (techniques s) \<longrightarrow>
      put_technique (techniques s) ?d = techniques s @ [?d]"
    by (simp add: put_technique_def duplicated_def)
  ultimately show ?thesis
    by (simp only: duplicated_as_update)
qed

theorem duplicateTechnique_fields_witness:
  "findTechniqueById (techniques ex_archive) 2 = Some ex_original
   \<and> length (t_name ex_original) + 8 \<le> 500
   \<and> t_description ex_original \<noteq> [] \<and> length (t_description ex_original) \<le> 5000
   \<and> nextId ex_archive \<notin> t_id ` set (techniques ex_archive)
   \<and> duplicateTechnique ex_archive ex_editor 2 9 =
       (Inr ex_copy, ex_archive\<lparr>techniques := [ex_original, ex_copy], nextId := 4\<rparr>)
   \<and> t_tags ex_copy = t_tags ex_original \<and> t_category ex_copy = t_category ex_original
   \<and> t_description ex_copy = t_description ex_original
   \<and> t_status ex_copy = Draft \<and> t_image ex_copy = None \<and> t_revisionHistory ex_copy = []"
proof -
  have found: "findTechniqueById (techniques ex_archive) 2 = Some ex_original"
    by (simp add: ex_archive_def findTechniqueById_def ex_original_def mk_technique_def)
  have name: "length (t_name ex_original) + 8 \<le> 500"
    and description: "t_description ex_original \<noteq> []" "length (t_description ex_original) \<le> 5000"
    by (simp_all add: ex_original_def mk_technique_def)
  have fresh: "nextId ex_archive \<notin> t_id ` set (techniques ex_archive)"
    by (simp add: ex_archive_def ex_db_def ex_original_def mk_technique_def)
  have copy: "ex_original\<lparr>t_id := nextId ex_archive, t_name := t_name ex_original @ '' (Copia)'',
       t_mitreid := None, t_fileLocation := None, t_image := None, t_revisionHistory := [],
       t_isActive := True, t_version := ''1.0'', t_createdBy := Some (u_id ex_editor),
       t_lastModifiedBy := None, t_status := Draft, t_createdAt := 9, t_updatedAt := 9\<rparr> = ex_copy"
    by (simp add: ex_original_def ex_copy_def mk_technique_def ex_archive_def ex_db_def ex_editor_def)
  from duplicateTechnique_fields [OF found name description, of ex_editor 9] fresh
  have "duplicateTechnique ex_archive ex_editor 2 9 =
       (Inr ex_copy, ex_archive\<lparr>techniques := techniques ex_archive @ [ex_copy],
                                nextId := Suc (nextId ex_archive)\<rparr>)"
    by (simp only: copy) simp
  then have "duplicateTechnique ex_archive ex_editor 2 9 =
       (Inr ex_copy, ex_archive\<lparr>techniques := [ex_original, ex_copy], nextId := 4\<rparr>)"
    by (simp add: ex_archive_def ex_db_def)
  with found name description fresh show ?thesis
    by (simp add: ex_copy_def ex_original_def mk_technique_def)
qed

section \<open>Revisions and versions\<close>

















end
